theory Spec2Isabelle
  imports Main "HOL-Library.Word"
begin

unbundle bit_operations_syntax

section \<open>The log manager of mnemosyne (log/mgr.c)\<close>

text \<open>
  A shallow embedding of \<^verbatim>\<open>usermode/library/mnemosyne/src/log/mgr.c\<close>.
  The intrusive lists of the source become lists of descriptor indices (the position of a
  descriptor in the array \<^verbatim>\<open>log_dscs\<close> that \<^verbatim>\<open>create_log_pool\<close> allocates); the
  callbacks of an operations table become functions on the descriptor they are handed; an
  assertion that fails and a dereferenced null pointer end the run with a value of type
  \<open>fatal\<close>. Mutexes and \<^verbatim>\<open>printf\<close> are left out: the model is sequential.
\<close>

subsection \<open>Data model\<close>

text \<open>
  The three values of \<^verbatim>\<open>m_result_t\<close> (result.h) that mgr.c returns. The second
  datatype names the two ways in which a run ends without returning.
\<close>

datatype m_result = M_R_SUCCESS | M_R_FAILURE | M_R_NOMEMORY

datatype fatal = AssertFailed | NullDeref

text \<open>The volatile log object behind \<^verbatim>\<open>m_log_t *\<close> is opaque to the manager.\<close>

type_synonym m_log = nat

text \<open>
  A pointer to an operations table: the address of an element of the array
  \<^verbatim>\<open>static_log_ops\<close> of mgr.c, or a table supplied by a client.
\<close>

datatype ops_ptr = static_log_ops nat | client_ops nat

text \<open>
  Modelled from the spec: \<^verbatim>\<open>m_log_dsc_t\<close> is declared in log.h, which is not among the
  sources; the fields are those of the spec's log descriptor, under the names mgr.c
  uses. The field \<open>generic_flags\<close> is \<^verbatim>\<open>nvmd->generic_flags\<close>: every descriptor points
  to the metadata record of its own slot and to no other, so the record is kept with the
  descriptor. The flags and the recovery order are taken to be unsigned 64-bit words. The
  pointer \<^verbatim>\<open>nvphlog\<close> is written once and never read in mgr.c and is left out. The list
  linkage is the position of the descriptor's index in one of the manager's lists.
\<close>

record m_log_dsc =
  generic_flags :: "64 word"
  log :: "m_log option"
  ops :: "ops_ptr option"
  logorder :: "64 word"

text \<open>
  A callback receives a pointer to the descriptor, so it may change any of its fields
  and the metadata record it points to.
\<close>

type_synonym callback = "m_log_dsc \<Rightarrow> m_result \<times> m_log_dsc"

text \<open>
  Modelled from the spec: \<^verbatim>\<open>m_log_ops_t\<close> is declared in log.h, which is not among the
  sources; its five function pointers are those of the spec's operations table.
\<close>

record m_log_ops =
  alloc :: "callback option"
  init :: "callback option"
  recovery_init :: "callback option"
  recovery_do :: "callback option"
  recovery_prepare_next :: "callback option"

definition NULL_LOG_OPS :: m_log_ops where
  "NULL_LOG_OPS =
     \<lparr>alloc = None, init = None, recovery_init = None, recovery_do = None,
      recovery_prepare_next = None\<rparr>"

text \<open>
  The constants of log.h that mgr.c uses are not among the sources: they are parameters
  of the model, and so is the memory that holds the clients' operations tables.
\<close>

record env =
  LF_TYPE_MASK :: "64 word"
  LF_TYPE_FREE :: "64 word"
  INV_LOG_ORDER :: "64 word"
  LF_TYPE_VALIDVALUES :: nat
  ops_mem :: "nat \<Rightarrow> m_log_ops"

text \<open>
  Every element of \<^verbatim>\<open>static_log_ops\<close> is \<^verbatim>\<open>NULL_LOG_OPS\<close>: the initialiser names the
  first element and the rest of a static array is zero.
\<close>

fun deref :: "env \<Rightarrow> ops_ptr \<Rightarrow> m_log_ops" where
  "deref E (static_log_ops i) = NULL_LOG_OPS"
| "deref E (client_ops a) = ops_mem E a"

text \<open>
  What the run did, in program order: the callbacks invoked, with the table they were
  reached through and the descriptor they were handed, and the uses of \<^verbatim>\<open>PCM_STORE\<close>
  and \<^verbatim>\<open>PCM_BARRIER\<close>.
\<close>

datatype event =
    CallAlloc ops_ptr nat
  | CallInit ops_ptr nat
  | CallRecoveryInit ops_ptr nat
  | CallRecoveryDo ops_ptr nat
  | CallRecoveryPrepareNext ops_ptr nat
  | PcmStore nat "64 word"
  | PcmBarrier

fun event_dsc :: "event \<Rightarrow> nat option" where
  "event_dsc (CallAlloc p d) = Some d"
| "event_dsc (CallInit p d) = Some d"
| "event_dsc (CallRecoveryInit p d) = Some d"
| "event_dsc (CallRecoveryDo p d) = Some d"
| "event_dsc (CallRecoveryPrepareNext p d) = Some d"
| "event_dsc (PcmStore d v) = Some d"
| "event_dsc PcmBarrier = None"

text \<open>
  Modelled from the spec: \<^verbatim>\<open>m_logmgr_t\<close> is declared in log.h, which is not among the
  sources; the four lists are those of the spec's log manager, under the names mgr.c
  uses. The record also holds the descriptor array and the trace. A registry entry is a
  \<^verbatim>\<open>m_logtype_entry_t\<close> of mgr.c: the type (a C \<^verbatim>\<open>int\<close>) and the pointer to its
  operations, which may be null.
\<close>

record m_logmgr =
  known_logtypes_list :: "(32 word \<times> ops_ptr option) list"
  free_logs_list :: "nat list"
  active_logs_list :: "nat list"
  pending_logs_list :: "nat list"
  log_dscs :: "nat \<Rightarrow> m_log_dsc"
  trace :: "event list"

definition LOG_NUM :: nat where
  "LOG_NUM = 32"

subsection \<open>The list operations of list.h\<close>

text \<open>
  Modelled from the spec: list.h is not among the sources. These are the operations of
  the Linux list API on the sequence of nodes that follows a list head.
\<close>

definition list_add_tail :: "'a \<Rightarrow> 'a list \<Rightarrow> 'a list" where
  "list_add_tail x l = l @ [x]"

definition list_add :: "'a \<Rightarrow> 'a list \<Rightarrow> 'a list" where
  "list_add x l = x # l"

definition list_del_init :: "'a \<Rightarrow> 'a list \<Rightarrow> 'a list" where
  "list_del_init x l = removeAll x l"

definition list_splice :: "'a list \<Rightarrow> 'a list \<Rightarrow> 'a list" where
  "list_splice l head = l @ head"

subsection \<open>Helpers shared by the operations\<close>

text \<open>\<^verbatim>\<open>log_dsc->nvmd->generic_flags & LF_TYPE_MASK\<close>\<close>

definition type_tag :: "env \<Rightarrow> m_log_dsc \<Rightarrow> 64 word" where
  "type_tag E dsc = generic_flags dsc AND LF_TYPE_MASK E"

text \<open>A C \<^verbatim>\<open>int\<close> compared with, or or-ed into, the 64-bit flags is sign-extended.\<close>

definition type_word :: "32 word \<Rightarrow> 64 word" where
  "type_word t = scast t"

text \<open>
  A callback runs on descriptor \<open>d\<close>: the descriptor is replaced by what the callback
  leaves, and the call is recorded.
\<close>

definition invoke :: "callback \<Rightarrow> event \<Rightarrow> nat \<Rightarrow> m_logmgr \<Rightarrow> m_result \<times> m_logmgr" where
  "invoke f ev d mgr =
     (fst (f (log_dscs mgr d)),
      mgr\<lparr>log_dscs := (log_dscs mgr)(d := snd (f (log_dscs mgr d))),
          trace := trace mgr @ [ev]\<rparr>)"

text \<open>\<^verbatim>\<open>assert(log_dsc->ops->alloc(log_dsc) == M_R_SUCCESS)\<close>\<close>

definition call_alloc :: "env \<Rightarrow> m_logmgr \<Rightarrow> nat \<Rightarrow> fatal + m_logmgr" where
  "call_alloc E mgr d =
     (case ops (log_dscs mgr d) of
        None \<Rightarrow> Inl NullDeref
      | Some p \<Rightarrow>
          (case alloc (deref E p) of
             None \<Rightarrow> Inl NullDeref
           | Some f \<Rightarrow>
               (if fst (invoke f (CallAlloc p d) d mgr) = M_R_SUCCESS
                then Inr (snd (invoke f (CallAlloc p d) d mgr))
                else Inl AssertFailed)))"

subsection \<open>create_log_pool\<close>

text \<open>
  The body of the loop over the slots: slot \<open>i\<close> gets a descriptor with no log, no
  operations and no recovery order, filed by the type tag found in its metadata record.
  \<open>nvmd i\<close> is the \<open>generic_flags\<close> word of slot \<open>i\<close> in the pool.
\<close>

definition create_dsc :: "env \<Rightarrow> (nat \<Rightarrow> 64 word) \<Rightarrow> m_logmgr \<Rightarrow> nat \<Rightarrow> m_logmgr" where
  "create_dsc E nvmd mgr i =
     (if nvmd i AND LF_TYPE_MASK E = LF_TYPE_FREE E
      then mgr\<lparr>log_dscs := (log_dscs mgr)
                 (i := \<lparr>generic_flags = nvmd i, log = None, ops = None,
                        logorder = INV_LOG_ORDER E\<rparr>),
               free_logs_list := list_add_tail i (free_logs_list mgr)\<rparr>
      else mgr\<lparr>log_dscs := (log_dscs mgr)
                 (i := \<lparr>generic_flags = nvmd i, log = None, ops = None,
                        logorder = INV_LOG_ORDER E\<rparr>),
               pending_logs_list := list_add_tail i (pending_logs_list mgr)\<rparr>)"

text \<open>
  The mapping of the pool's segment is the business of the segment module and is not
  modelled. The result of \<^verbatim>\<open>calloc\<close> is not checked: when it is null the first store
  through it ends the run.
\<close>

definition create_log_pool ::
  "env \<Rightarrow> (nat \<Rightarrow> 64 word) \<Rightarrow> bool \<Rightarrow> m_logmgr \<Rightarrow> fatal + m_logmgr" where
  "create_log_pool E nvmd calloc_ok mgr =
     (if calloc_ok then Inr (foldl (create_dsc E nvmd) mgr [0..<LOG_NUM])
      else Inl NullDeref)"

subsection \<open>register_logtype\<close>

text \<open>The first loop: is the type already in the list of known types?\<close>

fun logtype_known :: "32 word \<Rightarrow> (32 word \<times> ops_ptr option) list \<Rightarrow> bool" where
  "logtype_known t [] = False"
| "logtype_known t (e # es) = (if fst e = t then True else logtype_known t es)"

text \<open>
  The second loop, over the pending list: a descriptor whose tag is the new type gets
  the operations and has \<^verbatim>\<open>alloc\<close> called on it.
\<close>

fun register_pending ::
  "env \<Rightarrow> 32 word \<Rightarrow> ops_ptr option \<Rightarrow> m_logmgr \<Rightarrow> nat list \<Rightarrow> fatal + m_logmgr" where
  "register_pending E t opsp mgr [] = Inr mgr"
| "register_pending E t opsp mgr (d # ds) =
     (if type_tag E (log_dscs mgr d) = type_word t
      then (case call_alloc E
                   (mgr\<lparr>log_dscs := (log_dscs mgr)(d := (log_dscs mgr d)\<lparr>ops := opsp\<rparr>)\<rparr>) d of
              Inl f \<Rightarrow> Inl f
            | Inr mgr' \<Rightarrow> register_pending E t opsp mgr' ds)
      else register_pending E t opsp mgr ds)"

text \<open>
  \<open>malloc_ok\<close> says whether the \<^verbatim>\<open>malloc\<close> of the new entry succeeds. The argument
  \<open>lock\<close> only decides whether the manager's mutex is taken.
\<close>

definition register_logtype ::
  "env \<Rightarrow> m_logmgr \<Rightarrow> 32 word \<Rightarrow> ops_ptr option \<Rightarrow> bool \<Rightarrow> bool \<Rightarrow>
   fatal + (m_result \<times> m_logmgr)" where
  "register_logtype E mgr t opsp lock malloc_ok =
     (if logtype_known t (known_logtypes_list mgr) then Inr (M_R_SUCCESS, mgr)
      else if \<not> malloc_ok then Inr (M_R_NOMEMORY, mgr)
      else (case register_pending E t opsp
                   (mgr\<lparr>known_logtypes_list :=
                          list_add_tail (t, opsp) (known_logtypes_list mgr)\<rparr>)
                   (pending_logs_list mgr) of
              Inl f \<Rightarrow> Inl f
            | Inr mgr' \<Rightarrow> Inr (M_R_SUCCESS, mgr')))"

text \<open>
  The loop of \<^verbatim>\<open>register_static_logtypes\<close> over the types \<open>i\<close>, each asserted to
  register; \<open>oks i\<close> is the outcome of the \<^verbatim>\<open>malloc\<close> made for type \<open>i\<close>.
\<close>

fun register_static_loop ::
  "env \<Rightarrow> (nat \<Rightarrow> bool) \<Rightarrow> m_logmgr \<Rightarrow> nat list \<Rightarrow> fatal + m_logmgr" where
  "register_static_loop E oks mgr [] = Inr mgr"
| "register_static_loop E oks mgr (i # is) =
     (case register_logtype E mgr (of_nat i) (Some (static_log_ops i)) False (oks i) of
        Inl f \<Rightarrow> Inl f
      | Inr r \<Rightarrow>
          (if fst r = M_R_SUCCESS then register_static_loop E oks (snd r) is
           else Inl AssertFailed))"

definition register_static_logtypes ::
  "env \<Rightarrow> (nat \<Rightarrow> bool) \<Rightarrow> m_logmgr \<Rightarrow> fatal + (m_result \<times> m_logmgr)" where
  "register_static_logtypes E oks mgr =
     (case register_static_loop E oks mgr [1..<LF_TYPE_VALIDVALUES E] of
        Inl f \<Rightarrow> Inl f
      | Inr mgr' \<Rightarrow> Inr (M_R_SUCCESS, mgr'))"

subsection \<open>do_recovery\<close>

text \<open>
  The collection loop runs over the pending list as it was on entry (the source walks
  it with the iterator that tolerates the removal of the current node). The result of
  \<^verbatim>\<open>recovery_init\<close> is not looked at.
\<close>

definition collect_dsc ::
  "env \<Rightarrow> m_logmgr \<times> nat list \<Rightarrow> nat \<Rightarrow> m_logmgr \<times> nat list" where
  "collect_dsc E c d =
     (case ops (log_dscs (fst c) d) of
        None \<Rightarrow> c
      | Some p \<Rightarrow>
          (case recovery_init (deref E p) of
             None \<Rightarrow> c
           | Some f \<Rightarrow>
               ((snd (invoke f (CallRecoveryInit p d) d (fst c)))
                  \<lparr>pending_logs_list := list_del_init d (pending_logs_list (fst c))\<rparr>,
                list_add d (snd c))))"

definition recovery_collect :: "env \<Rightarrow> m_logmgr \<Rightarrow> m_logmgr \<times> nat list" where
  "recovery_collect E mgr = foldl (collect_dsc E) (mgr, []) (pending_logs_list mgr)"

text \<open>
  The scan inside the ordering loop: \<open>sel\<close> is \<^verbatim>\<open>log_dsc_to_recover\<close>. The orders
  are unsigned 64-bit values.
\<close>

definition scan_dsc :: "env \<Rightarrow> m_logmgr \<Rightarrow> nat option \<Rightarrow> nat \<Rightarrow> nat option" where
  "scan_dsc E mgr sel d =
     (if logorder (log_dscs mgr d) = INV_LOG_ORDER E then sel
      else (case sel of
              None \<Rightarrow> Some d
            | Some s \<Rightarrow>
                (if logorder (log_dscs mgr s) > logorder (log_dscs mgr d) then Some d
                 else Some s)))"

definition recovery_next :: "env \<Rightarrow> m_logmgr \<Rightarrow> nat list \<Rightarrow> nat option" where
  "recovery_next E mgr rl = foldl (scan_dsc E mgr) None rl"

text \<open>
  The three assertions and the two calls made on the selected descriptor. The second
  call reads \<^verbatim>\<open>log_dsc_to_recover->ops\<close> again, after \<^verbatim>\<open>recovery_do\<close> has run.
\<close>

definition recover_one :: "env \<Rightarrow> m_logmgr \<Rightarrow> nat \<Rightarrow> fatal + m_logmgr" where
  "recover_one E mgr d =
     (case ops (log_dscs mgr d) of
        None \<Rightarrow> Inl AssertFailed
      | Some p \<Rightarrow>
          (case recovery_do (deref E p) of
             None \<Rightarrow> Inl AssertFailed
           | Some fdo \<Rightarrow>
               (case recovery_prepare_next (deref E p) of
                  None \<Rightarrow> Inl AssertFailed
                | Some f0 \<Rightarrow>
                    (case ops (log_dscs (snd (invoke fdo (CallRecoveryDo p d) d mgr)) d) of
                       None \<Rightarrow> Inl NullDeref
                     | Some q \<Rightarrow>
                         (case recovery_prepare_next (deref E q) of
                            None \<Rightarrow> Inl NullDeref
                          | Some fnext \<Rightarrow>
                              Inr (snd (invoke fnext (CallRecoveryPrepareNext q d) d
                                     (snd (invoke fdo (CallRecoveryDo p d) d mgr)))))))))"

text \<open>
  The ordering loop. Nothing in the manager bounds the number of its iterations: it
  ends when the callbacks have set every order to \<^verbatim>\<open>INV_LOG_ORDER\<close>, and \<open>None\<close> is a
  run in which they never do.
\<close>

partial_function (option) recovery_loop ::
  "env \<Rightarrow> nat list \<Rightarrow> m_logmgr \<Rightarrow> (fatal + m_logmgr) option" where
  "recovery_loop E rl mgr =
     (case recovery_next E mgr rl of
        None \<Rightarrow> Some (Inr mgr)
      | Some d \<Rightarrow>
          (case recover_one E mgr d of
             Inl f \<Rightarrow> Some (Inl f)
           | Inr mgr' \<Rightarrow> recovery_loop E rl mgr'))"

declare recovery_loop.simps [code]

definition do_recovery :: "env \<Rightarrow> m_logmgr \<Rightarrow> (fatal + (m_result \<times> m_logmgr)) option" where
  "do_recovery E mgr =
     (case recovery_loop E (snd (recovery_collect E mgr)) (fst (recovery_collect E mgr)) of
        None \<Rightarrow> None
      | Some (Inl f) \<Rightarrow> Some (Inl f)
      | Some (Inr mgr') \<Rightarrow>
          Some (Inr (M_R_SUCCESS,
                     mgr'\<lparr>free_logs_list :=
                            list_splice (snd (recovery_collect E mgr)) (free_logs_list mgr')\<rparr>)))"

subsection \<open>logmgr_init\<close>

text \<open>
  What bring-up finds outside the manager: the \<open>generic_flags\<close> word of every slot of
  the pool, and the outcomes of the heap allocations it makes.
\<close>

record sys =
  pool_flags :: "nat \<Rightarrow> 64 word"
  malloc_mgr_ok :: bool
  calloc_dscs_ok :: bool
  malloc_entry_ok :: "nat \<Rightarrow> bool"

text \<open>The two static variables \<^verbatim>\<open>logmgr\<close> and \<^verbatim>\<open>logmgr_initialized\<close>.\<close>

record process =
  logmgr :: "m_logmgr option"
  logmgr_initialized :: bool

definition INIT_LIST_HEADS :: m_logmgr where
  "INIT_LIST_HEADS =
     \<lparr>known_logtypes_list = [], free_logs_list = [], active_logs_list = [],
      pending_logs_list = [],
      log_dscs = (\<lambda>i. \<lparr>generic_flags = 0, log = None, ops = None, logorder = 0\<rparr>),
      trace = []\<rparr>"

text \<open>
  The result of \<^verbatim>\<open>do_recovery\<close> is not looked at. \<^verbatim>\<open>m_logtrunc_init\<close> belongs to
  the truncation module and is not modelled.
\<close>

definition logmgr_init ::
  "env \<Rightarrow> sys \<Rightarrow> process \<Rightarrow> (fatal + (m_result \<times> process)) option" where
  "logmgr_init E W P =
     (if logmgr_initialized P then Some (Inr (M_R_SUCCESS, P))
      else if \<not> malloc_mgr_ok W then Some (Inr (M_R_NOMEMORY, P))
      else (case create_log_pool E (pool_flags W) (calloc_dscs_ok W) INIT_LIST_HEADS of
              Inl f \<Rightarrow> Some (Inl f)
            | Inr mgr1 \<Rightarrow>
                (case register_static_logtypes E (malloc_entry_ok W) mgr1 of
                   Inl f \<Rightarrow> Some (Inl f)
                 | Inr r2 \<Rightarrow>
                     (case do_recovery E (snd r2) of
                        None \<Rightarrow> None
                      | Some (Inl f) \<Rightarrow> Some (Inl f)
                      | Some (Inr r3) \<Rightarrow>
                          Some (Inr (M_R_SUCCESS,
                                     P\<lparr>logmgr := Some (snd r3),
                                       logmgr_initialized := True\<rparr>))))))"

definition m_logmgr_init ::
  "env \<Rightarrow> sys \<Rightarrow> process \<Rightarrow> (fatal + (m_result \<times> process)) option" where
  "m_logmgr_init E W P = logmgr_init E W P"

subsection \<open>The entry points for registration and recovery\<close>

text \<open>
  \<^verbatim>\<open>m_logmgr_register_logtype\<close> brings the manager up when \<^verbatim>\<open>logmgr\<close> is null, does
  not look at the result, and passes \<^verbatim>\<open>logmgr\<close> on; \<^verbatim>\<open>register_logtype\<close> then locks
  the mutex inside the manager.
\<close>

definition m_logmgr_register_logtype ::
  "env \<Rightarrow> sys \<Rightarrow> process \<Rightarrow> 32 word \<Rightarrow> ops_ptr option \<Rightarrow> bool \<Rightarrow>
   (fatal + (m_result \<times> process)) option" where
  "m_logmgr_register_logtype E W P t opsp malloc_ok =
     (case (if logmgr P = None then logmgr_init E W P else Some (Inr (M_R_SUCCESS, P))) of
        None \<Rightarrow> None
      | Some (Inl f) \<Rightarrow> Some (Inl f)
      | Some (Inr r) \<Rightarrow>
          (case logmgr (snd r) of
             None \<Rightarrow> Some (Inl NullDeref)
           | Some mgr \<Rightarrow>
               (case register_logtype E mgr t opsp True malloc_ok of
                  Inl f \<Rightarrow> Some (Inl f)
                | Inr r' \<Rightarrow> Some (Inr (fst r', (snd r)\<lparr>logmgr := Some (snd r')\<rparr>)))))"

text \<open>\<^verbatim>\<open>m_logmgr_do_recovery\<close> passes \<^verbatim>\<open>logmgr\<close> to \<^verbatim>\<open>do_recovery\<close> as it is.\<close>

definition m_logmgr_do_recovery ::
  "env \<Rightarrow> process \<Rightarrow> (fatal + (m_result \<times> process)) option" where
  "m_logmgr_do_recovery E P =
     (case logmgr P of
        None \<Rightarrow> Some (Inl NullDeref)
      | Some mgr \<Rightarrow>
          (case do_recovery E mgr of
             None \<Rightarrow> None
           | Some (Inl f) \<Rightarrow> Some (Inl f)
           | Some (Inr r) \<Rightarrow> Some (Inr (fst r, P\<lparr>logmgr := Some (snd r)\<rparr>))))"

subsection \<open>m_logmgr_alloc_log\<close>

text \<open>
  The body of the scan of the free list: the first component is \<^verbatim>\<open>free_log_dsc\<close>, the
  second \<^verbatim>\<open>free_log_dsc_notype\<close>.
\<close>

definition scan_free ::
  "env \<Rightarrow> m_logmgr \<Rightarrow> 32 word \<Rightarrow> nat option \<times> nat option \<Rightarrow> nat \<Rightarrow> nat option \<times> nat option"
  where
  "scan_free E mgr t acc d =
     (if type_tag E (log_dscs mgr d) = type_word t \<and> fst acc = None then Some d else fst acc,
      if type_tag E (log_dscs mgr d) = LF_TYPE_FREE E \<and> snd acc = None then Some d
      else snd acc)"

text \<open>
  The loop over the known types, for the untyped descriptor \<open>d\<close>: the first entry of
  the type gives its operations, \<^verbatim>\<open>alloc\<close> is asserted to succeed, and the loop is left.
\<close>

fun bind_logtype ::
  "env \<Rightarrow> 32 word \<Rightarrow> m_logmgr \<Rightarrow> nat \<Rightarrow> (32 word \<times> ops_ptr option) list \<Rightarrow> fatal + m_logmgr"
  where
  "bind_logtype E t mgr d [] = Inr mgr"
| "bind_logtype E t mgr d (e # es) =
     (if fst e = t
      then call_alloc E (mgr\<lparr>log_dscs := (log_dscs mgr)(d := (log_dscs mgr d)\<lparr>ops := snd e\<rparr>)\<rparr>) d
      else bind_logtype E t mgr d es)"

text \<open>
  \<^verbatim>\<open>PCM_STORE(&(log_dsc->nvmd->generic_flags), (flags & ~LF_TYPE_MASK) | type)\<close> and
  \<^verbatim>\<open>PCM_BARRIER\<close>.
\<close>

definition store_type :: "env \<Rightarrow> 32 word \<Rightarrow> nat \<Rightarrow> m_logmgr \<Rightarrow> m_logmgr" where
  "store_type E t d mgr =
     mgr\<lparr>log_dscs := (log_dscs mgr)
            (d := (log_dscs mgr d)
                    \<lparr>generic_flags :=
                       (generic_flags (log_dscs mgr d) AND NOT (LF_TYPE_MASK E)) OR type_word t\<rparr>),
         trace := trace mgr @
            [PcmStore d ((generic_flags (log_dscs mgr d) AND NOT (LF_TYPE_MASK E)) OR type_word t),
             PcmBarrier]\<rparr>"

text \<open>
  From \<^verbatim>\<open>list_del_init\<close> to the end: the descriptor goes from the free list to the tail
  of the active list, \<^verbatim>\<open>init\<close> is asserted to be there and to succeed, and the type is
  stored. The third component of the result is what is written to \<^verbatim>\<open>*log_dscp\<close>.
\<close>

definition activate ::
  "env \<Rightarrow> m_logmgr \<Rightarrow> nat \<Rightarrow> 32 word \<Rightarrow> fatal + (m_result \<times> nat option \<times> m_logmgr)" where
  "activate E mgr d t =
     (case ops (log_dscs mgr d) of
        None \<Rightarrow> Inl AssertFailed
      | Some p \<Rightarrow>
          (case init (deref E p) of
             None \<Rightarrow> Inl AssertFailed
           | Some f \<Rightarrow>
               (if fst (invoke f (CallInit p d) d
                          (mgr\<lparr>free_logs_list := list_del_init d (free_logs_list mgr),
                               active_logs_list := list_add_tail d (active_logs_list mgr)\<rparr>))
                   = M_R_SUCCESS
                then Inr (M_R_SUCCESS, Some d,
                          store_type E t d
                            (snd (invoke f (CallInit p d) d
                               (mgr\<lparr>free_logs_list := list_del_init d (free_logs_list mgr),
                                    active_logs_list :=
                                      list_add_tail d (active_logs_list mgr)\<rparr>))))
                else Inl AssertFailed)))"

text \<open>The body of \<^verbatim>\<open>m_logmgr_alloc_log\<close>, on the manager \<^verbatim>\<open>logmgr\<close> points to.\<close>

definition alloc_log ::
  "env \<Rightarrow> m_logmgr \<Rightarrow> 32 word \<Rightarrow> fatal + (m_result \<times> nat option \<times> m_logmgr)" where
  "alloc_log E mgr t =
     (case fst (foldl (scan_free E mgr t) (None, None) (free_logs_list mgr)) of
        Some d \<Rightarrow> activate E mgr d t
      | None \<Rightarrow>
          (case snd (foldl (scan_free E mgr t) (None, None) (free_logs_list mgr)) of
             Some d \<Rightarrow>
               (case bind_logtype E t mgr d (known_logtypes_list mgr) of
                  Inl f \<Rightarrow> Inl f
                | Inr mgr' \<Rightarrow>
                    (if ops (log_dscs mgr' d) = None then Inr (M_R_FAILURE, None, mgr')
                     else activate E mgr' d t))
           | None \<Rightarrow> Inr (M_R_FAILURE, None, mgr)))"

text \<open>\<^verbatim>\<open>m_logmgr_alloc_log\<close> reads \<^verbatim>\<open>logmgr->free_logs_list\<close> with no test of \<^verbatim>\<open>logmgr\<close>.\<close>

definition m_logmgr_alloc_log ::
  "env \<Rightarrow> process \<Rightarrow> 32 word \<Rightarrow> fatal + (m_result \<times> nat option \<times> process)" where
  "m_logmgr_alloc_log E P t =
     (case logmgr P of
        None \<Rightarrow> Inl NullDeref
      | Some mgr \<Rightarrow>
          (case alloc_log E mgr t of
             Inl f \<Rightarrow> Inl f
           | Inr r \<Rightarrow> Inr (fst r, fst (snd r), P\<lparr>logmgr := Some (snd (snd r))\<rparr>)))"

subsection \<open>A concrete pool\<close>

text \<open>
  A log type whose recovery takes one step per log: \<^verbatim>\<open>recovery_init\<close> reads the order
  from the flags above the tag, \<^verbatim>\<open>recovery_prepare_next\<close> ends the recovery of the log.
  The tag is the low three bits of the flags and \<^verbatim>\<open>LF_TYPE_FREE\<close> is 0.
\<close>

definition ex_ops :: m_log_ops where
  "ex_ops =
     \<lparr>alloc = Some (\<lambda>dsc. (M_R_SUCCESS, dsc\<lparr>log := Some 1\<rparr>)),
      init = Some (\<lambda>dsc. (M_R_SUCCESS, dsc)),
      recovery_init =
        Some (\<lambda>dsc. (M_R_SUCCESS, dsc\<lparr>logorder := drop_bit 3 (generic_flags dsc)\<rparr>)),
      recovery_do = Some (\<lambda>dsc. (M_R_SUCCESS, dsc)),
      recovery_prepare_next = Some (\<lambda>dsc. (M_R_SUCCESS, dsc\<lparr>logorder := - 1\<rparr>))\<rparr>"

definition ex_env :: env where
  "ex_env =
     \<lparr>LF_TYPE_MASK = 7, LF_TYPE_FREE = 0, INV_LOG_ORDER = - 1, LF_TYPE_VALIDVALUES = 1,
      ops_mem = (\<lambda>a. ex_ops)\<rparr>"

definition ex_dsc :: "64 word \<Rightarrow> ops_ptr option \<Rightarrow> m_log_dsc" where
  "ex_dsc fl p = \<lparr>generic_flags = fl, log = None, ops = p, logorder = - 1\<rparr>"

text \<open>
  Types 1 and 2 are registered. Slot 0 is pending with tag 2 and order 3, slot 1 is
  pending with tag 2 and order 1, slot 2 is pending with the unregistered tag 5, slot 3 is
  free and untyped.
\<close>

definition ex_mgr :: m_logmgr where
  "ex_mgr =
     \<lparr>known_logtypes_list = [(1, Some (client_ops 1)), (2, Some (client_ops 2))],
      free_logs_list = [3], active_logs_list = [], pending_logs_list = [0, 1, 2],
      log_dscs = (\<lambda>i. if i = 0 then ex_dsc 26 (Some (client_ops 2))
                       else if i = 1 then ex_dsc 10 (Some (client_ops 2))
                       else if i = 2 then ex_dsc 5 None
                       else ex_dsc 0 None),
      trace = []\<rparr>"

text \<open>Slot 0 alone is pending, with tag 2; types 1 and 2 are registered.\<close>

definition ex_pending :: m_logmgr where
  "ex_pending =
     \<lparr>known_logtypes_list = [(1, Some (client_ops 1)), (2, Some (client_ops 2))],
      free_logs_list = [], active_logs_list = [], pending_logs_list = [0],
      log_dscs = (\<lambda>i. ex_dsc 10 (Some (client_ops 2))),
      trace = []\<rparr>"

definition ex_recovered :: m_logmgr where
  "ex_recovered =
     (case do_recovery ex_env ex_pending of Some (Inr r) \<Rightarrow> snd r | _ \<Rightarrow> ex_pending)"

definition ex_mgr_recovered :: m_logmgr where
  "ex_mgr_recovered =
     (case do_recovery ex_env ex_mgr of Some (Inr r) \<Rightarrow> snd r | _ \<Rightarrow> ex_mgr)"

text \<open>
  No type is registered yet. Slots 0 and 1 are pending with tags 2 and 3, slot 2 is free.
\<close>

definition ex_unreg :: m_logmgr where
  "ex_unreg =
     \<lparr>known_logtypes_list = [], free_logs_list = [2], active_logs_list = [],
      pending_logs_list = [0, 1],
      log_dscs = (\<lambda>i. if i = 0 then ex_dsc 10 None
                       else if i = 1 then ex_dsc 11 None
                       else ex_dsc 0 None),
      trace = []\<rparr>"

definition ex_registered :: m_logmgr where
  "ex_registered =
     (case register_logtype ex_env ex_unreg 2 (Some (client_ops 2)) True True of
        Inr r \<Rightarrow> snd r | _ \<Rightarrow> ex_unreg)"

text \<open>
  Type 5 is registered. Slot 0 is free with tag 5 and the operations bound, slot 1 is
  free and untyped.
\<close>

definition ex_two_free :: m_logmgr where
  "ex_two_free =
     \<lparr>known_logtypes_list = [(5, Some (client_ops 5))], free_logs_list = [1, 0],
      active_logs_list = [], pending_logs_list = [],
      log_dscs = (\<lambda>i. if i = 0 then ex_dsc 5 (Some (client_ops 5)) else ex_dsc 0 None),
      trace = []\<rparr>"

definition ex_one_untyped :: m_logmgr where
  "ex_one_untyped =
     \<lparr>known_logtypes_list = [(5, Some (client_ops 5))], free_logs_list = [1],
      active_logs_list = [], pending_logs_list = [],
      log_dscs = (\<lambda>i. ex_dsc 8 None), trace = []\<rparr>"

definition ex_alloc :: "m_logmgr \<Rightarrow> 32 word \<Rightarrow> process" where
  "ex_alloc mgr t =
     (case m_logmgr_alloc_log ex_env \<lparr>logmgr = Some mgr, logmgr_initialized = True\<rparr> t of
        Inr r \<Rightarrow> snd (snd r)
      | Inl f \<Rightarrow> \<lparr>logmgr = Some mgr, logmgr_initialized = True\<rparr>)"

text \<open>The pool in which slot 3 carries tag 2 and order 1 and all other slots are untyped.\<close>

definition ex_pool :: m_logmgr where
  "ex_pool =
     (case create_log_pool ex_env (\<lambda>i. if i = 3 then 10 else 0) True INIT_LIST_HEADS of
        Inr mgr \<Rightarrow> mgr
      | Inl f \<Rightarrow> INIT_LIST_HEADS)"

text \<open>An untyped free slot that still has operations bound, and an empty registry.\<close>

definition ex_stale :: m_logmgr where
  "ex_stale =
     \<lparr>known_logtypes_list = [], free_logs_list = [0], active_logs_list = [],
      pending_logs_list = [], log_dscs = (\<lambda>i. ex_dsc 0 (Some (client_ops 2))), trace = []\<rparr>"

text \<open>One free untyped slot and an empty registry; and a manager with no free slot.\<close>

definition ex_untyped :: m_logmgr where
  "ex_untyped =
     \<lparr>known_logtypes_list = [], free_logs_list = [0], active_logs_list = [],
      pending_logs_list = [], log_dscs = (\<lambda>i. ex_dsc 0 None), trace = []\<rparr>"

definition ex_nofree :: m_logmgr where
  "ex_nofree =
     \<lparr>known_logtypes_list = [], free_logs_list = [], active_logs_list = [0],
      pending_logs_list = [], log_dscs = (\<lambda>i. ex_dsc 1 (Some (client_ops 1))), trace = []\<rparr>"

subsection \<open>Notions used in the properties\<close>

text \<open>The test of the collection loop: \<^verbatim>\<open>log_dsc->ops && log_dsc->ops->recovery_init\<close>.\<close>

definition recoverable :: "env \<Rightarrow> m_log_dsc \<Rightarrow> bool" where
  "recoverable E dsc =
     (case ops dsc of None \<Rightarrow> False | Some p \<Rightarrow> recovery_init (deref E p) \<noteq> None)"

text \<open>The events a recovery run can add for descriptor \<open>d\<close>.\<close>

fun recovery_event :: "nat \<Rightarrow> event \<Rightarrow> bool" where
  "recovery_event d (CallRecoveryInit p x) = (x = d)"
| "recovery_event d (CallRecoveryDo p x) = (x = d)"
| "recovery_event d (CallRecoveryPrepareNext p x) = (x = d)"
| "recovery_event d e = False"

text \<open>
  What holds of the manager \<open>fst c\<close> and the recovery list \<open>snd c\<close> throughout a run
  of \<^verbatim>\<open>do_recovery\<close> that started from \<open>mgr\<close>.
\<close>

definition recovery_inv :: "env \<Rightarrow> m_logmgr \<Rightarrow> m_logmgr \<times> nat list \<Rightarrow> bool" where
  "recovery_inv E mgr c \<longleftrightarrow>
     known_logtypes_list (fst c) = known_logtypes_list mgr \<and>
     free_logs_list (fst c) = free_logs_list mgr \<and>
     active_logs_list (fst c) = active_logs_list mgr \<and>
     pending_logs_list (fst c) = filter (\<lambda>x. x \<notin> set (snd c)) (pending_logs_list mgr) \<and>
     (\<forall>x. x \<notin> set (snd c) \<longrightarrow> log_dscs (fst c) x = log_dscs mgr x) \<and>
     (\<forall>x\<in>set (snd c). x \<in> set (pending_logs_list mgr) \<and> recoverable E (log_dscs mgr x)) \<and>
     (\<exists>new. trace (fst c) = trace mgr @ new \<and>
            (\<forall>e\<in>set new. \<exists>d\<in>set (snd c). recovery_event d e))"

text \<open>A callback that leaves the flags of the metadata record as they are.\<close>

definition keeps_flags :: "callback option \<Rightarrow> bool" where
  "keeps_flags cb =
     (case cb of None \<Rightarrow> True
      | Some f \<Rightarrow> (\<forall>dsc. generic_flags (snd (f dsc)) = generic_flags dsc))"

definition recovery_keeps_flags :: "env \<Rightarrow> bool" where
  "recovery_keeps_flags E \<longleftrightarrow>
     (\<forall>p. keeps_flags (recovery_init (deref E p)) \<and>
          keeps_flags (recovery_do (deref E p)) \<and>
          keeps_flags (recovery_prepare_next (deref E p)))"

text \<open>
  Descriptor \<open>d\<close> is the one the ordering loop must take from the recovery list
  \<open>rl\<close>: it has an order, no descriptor of the list has a smaller one, and those before
  it in the list have a greater one.
\<close>

definition least_order :: "env \<Rightarrow> m_logmgr \<Rightarrow> nat list \<Rightarrow> nat \<Rightarrow> bool" where
  "least_order E m rl d \<longleftrightarrow>
     d \<in> set rl \<and> logorder (log_dscs m d) \<noteq> INV_LOG_ORDER E \<and>
     (\<forall>x\<in>set rl. logorder (log_dscs m x) \<noteq> INV_LOG_ORDER E \<longrightarrow>
        logorder (log_dscs m d) \<le> logorder (log_dscs m x)) \<and>
     (\<forall>x\<in>set (takeWhile (\<lambda>x. x \<noteq> d) rl).
        logorder (log_dscs m x) \<noteq> INV_LOG_ORDER E \<longrightarrow>
        logorder (log_dscs m d) < logorder (log_dscs m x))"

text \<open>
  A sequence of iterations of the ordering loop as the spec describes them: each takes
  the descriptor of least order, calls \<^verbatim>\<open>recovery_do\<close> and then
  \<^verbatim>\<open>recovery_prepare_next\<close> on it, and touches nothing but that descriptor.
\<close>

inductive ordered_run :: "env \<Rightarrow> nat list \<Rightarrow> m_logmgr \<Rightarrow> m_logmgr \<Rightarrow> bool"
  for E :: env and rl :: "nat list" where
  ordered_run_none: "ordered_run E rl m m"
| ordered_run_step:
    "least_order E m rl d \<Longrightarrow>
     ordered_run E rl
       (m\<lparr>log_dscs := (log_dscs m)(d := dsc'),
          trace := trace m @ [CallRecoveryDo p d, CallRecoveryPrepareNext q d]\<rparr>) m' \<Longrightarrow>
     ordered_run E rl m m'"

text \<open>The calls of \<^verbatim>\<open>alloc\<close> through the table \<open>opsp\<close> on the descriptors \<open>ds\<close>, in order.\<close>

fun alloc_events :: "ops_ptr option \<Rightarrow> nat list \<Rightarrow> event list" where
  "alloc_events None ds = []"
| "alloc_events (Some p) ds = map (CallAlloc p) ds"

text \<open>
  Every slot is on exactly one of the free, active and pending lists and the recovery
  list \<open>rl\<close> of a running \<^verbatim>\<open>do_recovery\<close> (empty when none is running).
\<close>

definition partition_inv :: "m_logmgr \<Rightarrow> nat list \<Rightarrow> bool" where
  "partition_inv mgr rl \<longleftrightarrow>
     distinct (free_logs_list mgr @ active_logs_list mgr @ pending_logs_list mgr @ rl) \<and>
     set (free_logs_list mgr @ active_logs_list mgr @ pending_logs_list mgr @ rl) =
       {0..<LOG_NUM}"

text \<open>
  The managers that exist between two operations: the pool as \<^verbatim>\<open>create_log_pool\<close>
  builds it on the empty lists of \<^verbatim>\<open>logmgr_init\<close>, and what registration, recovery and
  allocation make of a manager when they return.
\<close>

inductive reachable :: "env \<Rightarrow> m_logmgr \<Rightarrow> bool" for E :: env where
  reach_pool:
    "create_log_pool E nvmd True INIT_LIST_HEADS = Inr mgr \<Longrightarrow> reachable E mgr"
| reach_register:
    "reachable E mgr \<Longrightarrow> register_logtype E mgr t opsp lock malloc_ok = Inr (rv, mgr') \<Longrightarrow>
     reachable E mgr'"
| reach_recovery:
    "reachable E mgr \<Longrightarrow> do_recovery E mgr = Some (Inr (rv, mgr')) \<Longrightarrow> reachable E mgr'"
| reach_alloc:
    "reachable E mgr \<Longrightarrow> alloc_log E mgr t = Inr (rv, r, mgr') \<Longrightarrow> reachable E mgr'"

text \<open>
  The managers inside a run of \<^verbatim>\<open>do_recovery\<close> on \<open>mgr\<close>: after the first \<open>k\<close>
  iterations of the collection loop, and after each iteration of the ordering loop.
\<close>

definition collected :: "env \<Rightarrow> m_logmgr \<Rightarrow> nat \<Rightarrow> m_logmgr \<times> nat list" where
  "collected E mgr k = foldl (collect_dsc E) (mgr, []) (take k (pending_logs_list mgr))"

inductive ordering :: "env \<Rightarrow> m_logmgr \<Rightarrow> m_logmgr \<Rightarrow> bool"
  for E :: env and mgr :: m_logmgr where
  ordering_start: "ordering E mgr (fst (recovery_collect E mgr))"
| ordering_step:
    "ordering E mgr m \<Longrightarrow> recovery_next E m (snd (recovery_collect E mgr)) = Some d \<Longrightarrow>
     recover_one E m d = Inr m1 \<Longrightarrow> ordering E mgr m1"

text \<open>
  The untyped descriptors of the free list have no operations bound, and no pending
  descriptor is untyped: the state in which the test \<^verbatim>\<open>!log_dsc->ops\<close> of
  \<^verbatim>\<open>m_logmgr_alloc_log\<close> recognises an unknown type.
\<close>

definition untyped_unbound :: "env \<Rightarrow> m_logmgr \<Rightarrow> bool" where
  "untyped_unbound E mgr \<longleftrightarrow>
     (\<forall>d\<in>set (free_logs_list mgr).
        type_tag E (log_dscs mgr d) = LF_TYPE_FREE E \<longrightarrow> ops (log_dscs mgr d) = None) \<and>
     (\<forall>d\<in>set (pending_logs_list mgr). type_tag E (log_dscs mgr d) \<noteq> LF_TYPE_FREE E)"

definition callbacks_keep_flags :: "env \<Rightarrow> bool" where
  "callbacks_keep_flags E \<longleftrightarrow>
     recovery_keeps_flags E \<and> (\<forall>p. keeps_flags (alloc (deref E p)))"

text \<open>Every \<^verbatim>\<open>recovery_prepare_next\<close> ends the recovery of the log it is called on.\<close>

definition ends_recovery :: "env \<Rightarrow> bool" where
  "ends_recovery E \<longleftrightarrow>
     (\<forall>p. case recovery_prepare_next (deref E p) of
            None \<Rightarrow> True
          | Some f \<Rightarrow> (\<forall>dsc. logorder (snd (f dsc)) = INV_LOG_ORDER E))"

section \<open>Properties\<close>

subsection \<open>The scan of the free list and the lookup of a type\<close>

lemma scan_free_foldl:
  "foldl (scan_free E mgr t) (a, b) fl =
     (case a of Some x \<Rightarrow> Some x
      | None \<Rightarrow> find (\<lambda>d. type_tag E (log_dscs mgr d) = type_word t) fl,
      case b of Some x \<Rightarrow> Some x
      | None \<Rightarrow> find (\<lambda>d. type_tag E (log_dscs mgr d) = LF_TYPE_FREE E) fl)"
  by (induction fl arbitrary: a b) (auto simp: scan_free_def split: option.splits)

lemma scan_free_find:
  "foldl (scan_free E mgr t) (None, None) fl =
     (find (\<lambda>d. type_tag E (log_dscs mgr d) = type_word t) fl,
      find (\<lambda>d. type_tag E (log_dscs mgr d) = LF_TYPE_FREE E) fl)"
  by (simp add: scan_free_foldl)

lemma find_None_all: "find P xs = None \<longleftrightarrow> (\<forall>x\<in>set xs. \<not> P x)"
  by (induction xs) auto

lemma find_Some_set: "find P xs = Some x \<Longrightarrow> x \<in> set xs \<and> P x"
  by (induction xs) (auto split: if_splits)

lemma logtype_known_iff: "logtype_known t kl \<longleftrightarrow> t \<in> fst ` set kl"
  by (induction kl) auto

lemma bind_logtype_unknown: "\<not> logtype_known t kl \<Longrightarrow> bind_logtype E t mgr d kl = Inr mgr"
  by (induction kl) (auto split: if_splits)

lemma bind_logtype_map_of:
  "bind_logtype E t mgr d kl =
     (case map_of kl t of
        None \<Rightarrow> Inr mgr
      | Some opsp \<Rightarrow>
          call_alloc E (mgr\<lparr>log_dscs := (log_dscs mgr)(d := (log_dscs mgr d)\<lparr>ops := opsp\<rparr>)\<rparr>) d)"
  by (induction kl) auto

lemma activate_result:
  "activate E mgr d t = Inr (rv, r, mgr') \<Longrightarrow> rv = M_R_SUCCESS \<and> r = Some d"
  by (auto simp: activate_def split: option.splits if_splits)

lemma alloc_log_selected:
  assumes "alloc_log E mgr t = Inr (rv, Some d, mgr')"
  shows "d \<in> set (free_logs_list mgr) \<and>
         (type_tag E (log_dscs mgr d) = type_word t \<or>
          type_tag E (log_dscs mgr d) = LF_TYPE_FREE E)"
  using assms
  by (auto simp: alloc_log_def scan_free_find dest!: find_Some_set activate_result
           split: option.splits sum.splits if_splits)

lemma alloc_log_no_candidate:
  assumes "\<forall>d\<in>set (free_logs_list mgr).
             type_tag E (log_dscs mgr d) \<noteq> type_word t \<and>
             type_tag E (log_dscs mgr d) \<noteq> LF_TYPE_FREE E"
  shows "alloc_log E mgr t = Inr (M_R_FAILURE, None, mgr)"
proof -
  have "find (\<lambda>d. type_tag E (log_dscs mgr d) = type_word t) (free_logs_list mgr) = None"
    using assms by (simp add: find_None_all)
  moreover
  have "find (\<lambda>d. type_tag E (log_dscs mgr d) = LF_TYPE_FREE E) (free_logs_list mgr) = None"
    using assms by (simp add: find_None_all)
  ultimately show ?thesis
    by (simp add: alloc_log_def scan_free_find)
qed

lemma alloc_log_unknown_type:
  assumes notag: "\<forall>d\<in>set (free_logs_list mgr). type_tag E (log_dscs mgr d) \<noteq> type_word t"
    and free: "\<exists>d\<in>set (free_logs_list mgr). type_tag E (log_dscs mgr d) = LF_TYPE_FREE E"
    and unbound: "\<forall>d\<in>set (free_logs_list mgr).
                    type_tag E (log_dscs mgr d) = LF_TYPE_FREE E \<longrightarrow> ops (log_dscs mgr d) = None"
    and unknown: "\<not> logtype_known t (known_logtypes_list mgr)"
  shows "alloc_log E mgr t = Inr (M_R_FAILURE, None, mgr)"
proof -
  have a: "find (\<lambda>d. type_tag E (log_dscs mgr d) = type_word t) (free_logs_list mgr) = None"
    using notag by (simp add: find_None_all)
  obtain d where d:
    "find (\<lambda>d. type_tag E (log_dscs mgr d) = LF_TYPE_FREE E) (free_logs_list mgr) = Some d"
    using free
    by (cases "find (\<lambda>d. type_tag E (log_dscs mgr d) = LF_TYPE_FREE E) (free_logs_list mgr)")
       (auto simp: find_None_all)
  have "ops (log_dscs mgr d) = None"
    using find_Some_set [OF d] unbound by blast
  then show ?thesis
    using a d unknown by (simp add: alloc_log_def scan_free_find bind_logtype_unknown)
qed

lemmas ex_defs =
  ex_env_def ex_ops_def ex_dsc_def invoke_def type_tag_def type_word_def
  list_add_def list_add_tail_def list_del_init_def list_splice_def

subsection \<open>Runs on the concrete pool\<close>

lemma ex_recovered_run:
  "do_recovery ex_env ex_pending = Some (Inr (M_R_SUCCESS, ex_recovered))"
  by (simp add: ex_recovered_def do_recovery_def recovery_loop.simps recover_one_def
        recovery_next_def scan_dsc_def recovery_collect_def collect_dsc_def
        ex_pending_def ex_defs)

lemma ex_recovered_free:
  "free_logs_list ex_recovered = [0] \<and>
   type_tag ex_env (log_dscs ex_recovered 0) = type_word 2"
  by (simp add: ex_recovered_def do_recovery_def recovery_loop.simps recover_one_def
        recovery_next_def scan_dsc_def recovery_collect_def collect_dsc_def
        ex_pending_def ex_defs)

lemma ex_recovered_alloc_2:
  "\<exists>P'. m_logmgr_alloc_log ex_env \<lparr>logmgr = Some ex_recovered, logmgr_initialized = True\<rparr> 2 =
     Inr (M_R_SUCCESS, Some 0, P')"
  by (simp add: ex_recovered_def do_recovery_def recovery_loop.simps recover_one_def
        recovery_next_def scan_dsc_def recovery_collect_def collect_dsc_def
        m_logmgr_alloc_log_def alloc_log_def scan_free_def activate_def store_type_def
        ex_pending_def ex_defs)

lemma ex_mgr_run:
  "do_recovery ex_env ex_mgr = Some (Inr (M_R_SUCCESS, ex_mgr_recovered))"
  by (simp add: ex_mgr_recovered_def do_recovery_def recovery_loop.simps recover_one_def
        recovery_next_def scan_dsc_def recovery_collect_def collect_dsc_def
        ex_mgr_def ex_defs)

subsection \<open>The scan of the recovery list and the ordering loop\<close>

lemma scan_dsc_foldl_None:
  "foldl (scan_dsc E m) sel rl = None \<longleftrightarrow>
     sel = None \<and> (\<forall>x\<in>set rl. logorder (log_dscs m x) = INV_LOG_ORDER E)"
  by (induction rl arbitrary: sel) (auto simp: scan_dsc_def split: option.splits)

lemma scan_dsc_cases:
  "scan_dsc E m sel a = Some d \<Longrightarrow>
     (sel = Some d \<and> (logorder (log_dscs m a) \<noteq> INV_LOG_ORDER E \<longrightarrow>
                        logorder (log_dscs m d) \<le> logorder (log_dscs m a))) \<or>
     (a = d \<and> logorder (log_dscs m d) \<noteq> INV_LOG_ORDER E \<and>
      (\<forall>s. sel = Some s \<longrightarrow> logorder (log_dscs m d) < logorder (log_dscs m s)))"
  by (cases sel) (auto simp: scan_dsc_def split: if_splits)

lemma scan_dsc_foldl_le:
  "foldl (scan_dsc E m) sel rl = Some d \<Longrightarrow>
     (\<forall>s. sel = Some s \<longrightarrow> logorder (log_dscs m d) \<le> logorder (log_dscs m s)) \<and>
     (\<forall>x\<in>set rl. logorder (log_dscs m x) \<noteq> INV_LOG_ORDER E \<longrightarrow>
        logorder (log_dscs m d) \<le> logorder (log_dscs m x))"
proof (induction rl arbitrary: sel)
  case Nil
  then show ?case by simp
next
  case (Cons a rl)
  then have ih: "(\<forall>s. scan_dsc E m sel a = Some s \<longrightarrow> logorder (log_dscs m d) \<le> logorder (log_dscs m s)) \<and>
     (\<forall>x\<in>set rl. logorder (log_dscs m x) \<noteq> INV_LOG_ORDER E \<longrightarrow>
        logorder (log_dscs m d) \<le> logorder (log_dscs m x))"
    by simp
  have 1: "logorder (log_dscs m d) \<le> logorder (log_dscs m s)" if "sel = Some s" for s
  proof (cases "logorder (log_dscs m a) = INV_LOG_ORDER E \<or> \<not> logorder (log_dscs m s) > logorder (log_dscs m a)")
    case True
    then have "scan_dsc E m sel a = Some s" using that by (auto simp: scan_dsc_def)
    then show ?thesis using ih by blast
  next
    case False
    then have "scan_dsc E m sel a = Some a" using that by (auto simp: scan_dsc_def)
    then have "logorder (log_dscs m d) \<le> logorder (log_dscs m a)" using ih by blast
    moreover have "logorder (log_dscs m a) < logorder (log_dscs m s)" using False by simp
    ultimately show ?thesis by order
  qed
  have 2: "logorder (log_dscs m d) \<le> logorder (log_dscs m a)"
    if v: "logorder (log_dscs m a) \<noteq> INV_LOG_ORDER E"
  proof (cases sel)
    case None
    then have "scan_dsc E m sel a = Some a" using v by (simp add: scan_dsc_def)
    then show ?thesis using ih by blast
  next
    case (Some s)
    show ?thesis
    proof (cases "logorder (log_dscs m s) > logorder (log_dscs m a)")
      case True
      then have "scan_dsc E m sel a = Some a" using v Some by (simp add: scan_dsc_def)
      then show ?thesis using ih by blast
    next
      case False
      then have "scan_dsc E m sel a = Some s" using v Some by (simp add: scan_dsc_def)
      then have "logorder (log_dscs m d) \<le> logorder (log_dscs m s)" using ih by blast
      moreover have "logorder (log_dscs m s) \<le> logorder (log_dscs m a)" using False by simp
      ultimately show ?thesis by order
    qed
  qed
  show ?case using 1 2 ih by simp
qed

lemma recovery_next_None:
  "recovery_next E m rl = None \<longleftrightarrow> (\<forall>x\<in>set rl. logorder (log_dscs m x) = INV_LOG_ORDER E)"
  by (simp add: recovery_next_def scan_dsc_foldl_None)

lemma recovery_next_Some:
  "recovery_next E m rl = Some d \<Longrightarrow>
     \<exists>pre post. rl = pre @ d # post \<and>
        logorder (log_dscs m d) \<noteq> INV_LOG_ORDER E \<and>
        (\<forall>x\<in>set pre. logorder (log_dscs m x) \<noteq> INV_LOG_ORDER E \<longrightarrow>
           logorder (log_dscs m d) < logorder (log_dscs m x)) \<and>
        (\<forall>x\<in>set post. logorder (log_dscs m x) \<noteq> INV_LOG_ORDER E \<longrightarrow>
           logorder (log_dscs m d) \<le> logorder (log_dscs m x))"
proof (induction rl arbitrary: d rule: rev_induct)
  case Nil
  then show ?case by (simp add: recovery_next_def)
next
  case (snoc a rl)
  let ?r = "recovery_next E m rl"
  from snoc.prems have step: "scan_dsc E m ?r a = Some d"
    by (simp add: recovery_next_def)
  from scan_dsc_cases [OF step] show ?case
  proof
    assume keep: "?r = Some d \<and> (logorder (log_dscs m a) \<noteq> INV_LOG_ORDER E \<longrightarrow>
                        logorder (log_dscs m d) \<le> logorder (log_dscs m a))"
    then obtain pre post where pp: "rl = pre @ d # post"
        "logorder (log_dscs m d) \<noteq> INV_LOG_ORDER E"
        "\<forall>x\<in>set pre. logorder (log_dscs m x) \<noteq> INV_LOG_ORDER E \<longrightarrow>
           logorder (log_dscs m d) < logorder (log_dscs m x)"
        "\<forall>x\<in>set post. logorder (log_dscs m x) \<noteq> INV_LOG_ORDER E \<longrightarrow>
           logorder (log_dscs m d) \<le> logorder (log_dscs m x)"
      using snoc.IH by blast
    have "rl @ [a] = pre @ d # (post @ [a])" using pp(1) by simp
    moreover have "\<forall>x\<in>set (post @ [a]). logorder (log_dscs m x) \<noteq> INV_LOG_ORDER E \<longrightarrow>
           logorder (log_dscs m d) \<le> logorder (log_dscs m x)"
      using pp(4) keep by simp
    ultimately show ?thesis using pp(2,3) by blast
  next
    assume new: "a = d \<and> logorder (log_dscs m d) \<noteq> INV_LOG_ORDER E \<and>
      (\<forall>s. ?r = Some s \<longrightarrow> logorder (log_dscs m d) < logorder (log_dscs m s))"
    have "logorder (log_dscs m d) < logorder (log_dscs m x)"
      if x: "x \<in> set rl" "logorder (log_dscs m x) \<noteq> INV_LOG_ORDER E" for x
    proof (cases ?r)
      case None
      then show ?thesis using x by (simp add: recovery_next_None)
    next
      case (Some s)
      then have "logorder (log_dscs m s) \<le> logorder (log_dscs m x)"
        using scan_dsc_foldl_le [of E m None rl s] x by (simp add: recovery_next_def)
      moreover have "logorder (log_dscs m d) < logorder (log_dscs m s)"
        using new Some by blast
      ultimately show ?thesis by order
    qed
    then have "rl @ [a] = rl @ d # [] \<and> logorder (log_dscs m d) \<noteq> INV_LOG_ORDER E \<and>
        (\<forall>x\<in>set rl. logorder (log_dscs m x) \<noteq> INV_LOG_ORDER E \<longrightarrow>
           logorder (log_dscs m d) < logorder (log_dscs m x)) \<and>
        (\<forall>x\<in>set []. logorder (log_dscs m x) \<noteq> INV_LOG_ORDER E \<longrightarrow>
           logorder (log_dscs m d) \<le> logorder (log_dscs m x))"
      using new by simp
    then show ?thesis by blast
  qed
qed

lemma recovery_next_in_set: "recovery_next E m rl = Some d \<Longrightarrow> d \<in> set rl"
  by (drule recovery_next_Some) auto

text \<open>
  An invariant of the ordering loop holds when the loop returns, and the loop returns
  only when the scan finds nothing.
\<close>

lemma recovery_loop_invariant:
  assumes run: "recovery_loop E rl mgr = Some (Inr mgr')"
    and init: "I mgr"
    and step: "\<And>m d m1. I m \<Longrightarrow> recovery_next E m rl = Some d \<Longrightarrow>
                 recover_one E m d = Inr m1 \<Longrightarrow> I m1"
  shows "I mgr' \<and> recovery_next E mgr' rl = None"
proof -
  define P where "P = (\<lambda>(E' :: env) (rl' :: nat list) (m :: m_logmgr) (r :: fatal + m_logmgr).
     \<forall>m'. r = Inr m' \<longrightarrow>
          (\<forall>m d m1. I m \<longrightarrow> recovery_next E' m rl' = Some d \<longrightarrow>
             recover_one E' m d = Inr m1 \<longrightarrow> I m1) \<longrightarrow>
          I m \<longrightarrow> I m' \<and> recovery_next E' m' rl' = None)"
  have "P E rl mgr (Inr mgr')"
  proof (rule recovery_loop.raw_induct [OF _ run])
    fix loop :: "env \<Rightarrow> nat list \<Rightarrow> m_logmgr \<Rightarrow> (fatal + m_logmgr) option"
    fix E rl mgr r
    assume IH: "\<And>E rl mgr y. loop E rl mgr = Some y \<Longrightarrow> P E rl mgr y"
      and hyp: "(case recovery_next E mgr rl of None \<Rightarrow> Some (Inr mgr)
                 | Some d \<Rightarrow>
                     (case recover_one E mgr d of Inl f \<Rightarrow> Some (Inl f)
                      | Inr mgr' \<Rightarrow> loop E rl mgr')) = Some r"
    show "P E rl mgr r"
      unfolding P_def
    proof (intro allI impI)
      fix m'
      assume r: "r = Inr m'"
        and st: "\<forall>m d m1. I m \<longrightarrow> recovery_next E m rl = Some d \<longrightarrow>
                   recover_one E m d = Inr m1 \<longrightarrow> I m1"
        and i: "I mgr"
      show "I m' \<and> recovery_next E m' rl = None"
      proof (cases "recovery_next E mgr rl")
        case None
        with hyp r have "m' = mgr" by simp
        with None i show ?thesis by simp
      next
        case (Some d)
        show ?thesis
        proof (cases "recover_one E mgr d")
          case (Inl f)
          with hyp Some r show ?thesis by simp
        next
          case (Inr m1)
          with hyp Some have again: "loop E rl m1 = Some r" by simp
          have "I m1" using st i Some Inr by blast
          with IH [OF again] r st show ?thesis unfolding P_def by blast
        qed
      qed
    qed
  qed
  then show ?thesis
    unfolding P_def using init step by blast
qed

lemma foldl_invariant:
  assumes "I c" and "\<And>c x. I c \<Longrightarrow> x \<in> set xs \<Longrightarrow> I (f c x)"
  shows "I (foldl f c xs)"
  using assms by (induction xs arbitrary: c) auto

subsection \<open>The collection loop\<close>

lemma collect_dsc_skip:
  "\<not> recoverable E (log_dscs (fst c) d) \<Longrightarrow> collect_dsc E c d = c"
  by (auto simp: collect_dsc_def recoverable_def split: option.splits)

lemma collect_dsc_take:
  assumes "recoverable E (log_dscs (fst c) d)"
  shows "\<exists>p dsc'. ops (log_dscs (fst c) d) = Some p \<and>
           (keeps_flags (recovery_init (deref E p)) \<longrightarrow>
              generic_flags dsc' = generic_flags (log_dscs (fst c) d)) \<and>
           collect_dsc E c d =
             ((fst c)\<lparr>log_dscs := (log_dscs (fst c))(d := dsc'),
                      trace := trace (fst c) @ [CallRecoveryInit p d],
                      pending_logs_list := removeAll d (pending_logs_list (fst c))\<rparr>,
              d # snd c)"
  using assms
  by (auto simp: collect_dsc_def recoverable_def invoke_def list_add_def list_del_init_def
        keeps_flags_def split: option.splits)

lemma recovery_inv_start: "recovery_inv E mgr (mgr, [])"
  by (simp add: recovery_inv_def)

lemma recovery_inv_collect_dsc:
  assumes inv: "recovery_inv E mgr c" and x: "x \<in> set (pending_logs_list mgr)"
  shows "recovery_inv E mgr (collect_dsc E c x)"
proof (cases "recoverable E (log_dscs (fst c) x)")
  case False
  then show ?thesis using inv by (simp add: collect_dsc_skip)
next
  case True
  obtain p dsc' where pf: "collect_dsc E c x =
             ((fst c)\<lparr>log_dscs := (log_dscs (fst c))(x := dsc'),
                      trace := trace (fst c) @ [CallRecoveryInit p x],
                      pending_logs_list := removeAll x (pending_logs_list (fst c))\<rparr>,
              x # snd c)"
    using collect_dsc_take [OF True] by blast
  have rec: "recoverable E (log_dscs mgr x)"
  proof (cases "x \<in> set (snd c)")
    case True
    then show ?thesis using inv by (simp add: recovery_inv_def)
  next
    case False
    then have "log_dscs (fst c) x = log_dscs mgr x" using inv by (simp add: recovery_inv_def)
    then show ?thesis using True by simp
  qed
  obtain new where new: "trace (fst c) = trace mgr @ new"
      "\<forall>e\<in>set new. \<exists>d\<in>set (snd c). recovery_event d e"
    using inv unfolding recovery_inv_def by blast
  have tr: "\<exists>new'. trace (fst c) @ [CallRecoveryInit p x] = trace mgr @ new' \<and>
            (\<forall>e\<in>set new'. \<exists>d\<in>set (x # snd c). recovery_event d e)"
  proof (intro exI conjI)
    show "trace (fst c) @ [CallRecoveryInit p x] = trace mgr @ (new @ [CallRecoveryInit p x])"
      using new(1) by simp
    show "\<forall>e\<in>set (new @ [CallRecoveryInit p x]). \<exists>d\<in>set (x # snd c). recovery_event d e"
      using new(2) by auto
  qed
  have pend: "removeAll x (pending_logs_list (fst c)) =
              filter (\<lambda>y. y \<notin> set (x # snd c)) (pending_logs_list mgr)"
    using inv by (auto simp: recovery_inv_def removeAll_filter_not_eq intro: filter_cong)
  show ?thesis
    unfolding pf recovery_inv_def
    using inv rec x tr pend by (simp add: recovery_inv_def)
qed

lemma recovery_inv_collect:
  "recovery_inv E mgr (recovery_collect E mgr)"
  unfolding recovery_collect_def
  by (rule foldl_invariant) (simp_all add: recovery_inv_start recovery_inv_collect_dsc)

lemma recover_one_calls:
  assumes "recover_one E m d = Inr m'"
  shows "\<exists>p q fdo fnext.
           recovery_do (deref E p) = Some fdo \<and>
           recovery_prepare_next (deref E q) = Some fnext \<and>
           m' = m\<lparr>log_dscs := (log_dscs m)(d := snd (fnext (snd (fdo (log_dscs m d))))),
                   trace := trace m @ [CallRecoveryDo p d, CallRecoveryPrepareNext q d]\<rparr>"
  using assms
  by (auto simp: recover_one_def invoke_def split: option.splits)

lemma recover_one_effect:
  assumes "recover_one E m d = Inr m'"
  shows "\<exists>p q dsc'.
           (keeps_flags (recovery_do (deref E p)) \<longrightarrow>
            keeps_flags (recovery_prepare_next (deref E q)) \<longrightarrow>
              generic_flags dsc' = generic_flags (log_dscs m d)) \<and>
           m' = m\<lparr>log_dscs := (log_dscs m)(d := dsc'),
                   trace := trace m @ [CallRecoveryDo p d, CallRecoveryPrepareNext q d]\<rparr>"
proof -
  obtain p q fdo fnext where c:
    "recovery_do (deref E p) = Some fdo"
    "recovery_prepare_next (deref E q) = Some fnext"
    "m' = m\<lparr>log_dscs := (log_dscs m)(d := snd (fnext (snd (fdo (log_dscs m d))))),
            trace := trace m @ [CallRecoveryDo p d, CallRecoveryPrepareNext q d]\<rparr>"
    using recover_one_calls [OF assms] by blast
  have "keeps_flags (recovery_do (deref E p)) \<longrightarrow>
        keeps_flags (recovery_prepare_next (deref E q)) \<longrightarrow>
          generic_flags (snd (fnext (snd (fdo (log_dscs m d))))) = generic_flags (log_dscs m d)"
    using c(1,2) by (simp add: keeps_flags_def)
  then show ?thesis
    using c(3) by blast
qed

lemma recovery_inv_recover_one:
  assumes inv: "recovery_inv E mgr (m, rl)" and d: "d \<in> set rl"
    and one: "recover_one E m d = Inr m1"
  shows "recovery_inv E mgr (m1, rl)"
proof -
  obtain p q dsc' where m1: "m1 = m\<lparr>log_dscs := (log_dscs m)(d := dsc'),
                   trace := trace m @ [CallRecoveryDo p d, CallRecoveryPrepareNext q d]\<rparr>"
    using recover_one_effect [OF one] by blast
  obtain new where new: "trace m = trace mgr @ new"
      "\<forall>e\<in>set new. \<exists>d\<in>set rl. recovery_event d e"
    using inv unfolding recovery_inv_def by auto
  have tr: "\<exists>new'. trace m @ [CallRecoveryDo p d, CallRecoveryPrepareNext q d] = trace mgr @ new' \<and>
            (\<forall>e\<in>set new'. \<exists>d\<in>set rl. recovery_event d e)"
  proof (intro exI conjI)
    show "trace m @ [CallRecoveryDo p d, CallRecoveryPrepareNext q d] =
          trace mgr @ (new @ [CallRecoveryDo p d, CallRecoveryPrepareNext q d])"
      using new(1) by simp
    show "\<forall>e\<in>set (new @ [CallRecoveryDo p d, CallRecoveryPrepareNext q d]).
            \<exists>d\<in>set rl. recovery_event d e"
      using new(2) d by auto
  qed
  show ?thesis
    unfolding m1 recovery_inv_def
    using inv d tr by (simp add: recovery_inv_def)
qed

lemma collect_dsc_snd:
  "snd (collect_dsc E c x) = snd c \<or> snd (collect_dsc E c x) = x # snd c"
  by (auto simp: collect_dsc_def list_add_def split: option.splits)

lemma collect_foldl_mono:
  "set (snd c) \<subseteq> set (snd (foldl (collect_dsc E) c ds))"
proof (induction ds arbitrary: c)
  case Nil
  then show ?case by simp
next
  case (Cons x ds)
  have "set (snd c) \<subseteq> set (snd (collect_dsc E c x))"
    using collect_dsc_snd [of E c x] by auto
  also have "\<dots> \<subseteq> set (snd (foldl (collect_dsc E) (collect_dsc E c x) ds))"
    by (rule Cons.IH)
  finally show ?case by simp
qed

lemma collect_foldl_complete:
  assumes "recovery_inv E mgr c" and "set ds \<subseteq> set (pending_logs_list mgr)"
    and "d \<in> set ds" and "recoverable E (log_dscs mgr d)"
  shows "d \<in> set (snd (foldl (collect_dsc E) c ds))"
  using assms
proof (induction ds arbitrary: c)
  case Nil
  then show ?case by simp
next
  case (Cons x ds)
  have inv': "recovery_inv E mgr (collect_dsc E c x)"
    using Cons.prems by (simp add: recovery_inv_collect_dsc)
  show ?case
  proof (cases "d \<in> set ds")
    case True
    then show ?thesis using Cons.IH [OF inv'] Cons.prems by simp
  next
    case False
    then have dx: "d = x" using Cons.prems by simp
    have "d \<in> set (snd (collect_dsc E c x))"
    proof (cases "d \<in> set (snd c)")
      case True
      then show ?thesis using collect_dsc_snd [of E c x] by auto
    next
      case False
      then have "log_dscs (fst c) d = log_dscs mgr d"
        using Cons.prems(1) by (simp add: recovery_inv_def)
      then have "recoverable E (log_dscs (fst c) x)"
        using Cons.prems(4) dx by simp
      then show ?thesis
        using collect_dsc_take [of E c x] dx by auto
    qed
    then show ?thesis
      using collect_foldl_mono [of "collect_dsc E c x" E ds] by auto
  qed
qed

lemma recovery_collect_set:
  "set (snd (recovery_collect E mgr)) =
     {d \<in> set (pending_logs_list mgr). recoverable E (log_dscs mgr d)}"
proof -
  have "set (snd (recovery_collect E mgr)) \<subseteq>
          {d \<in> set (pending_logs_list mgr). recoverable E (log_dscs mgr d)}"
    using recovery_inv_collect [of E mgr] by (auto simp: recovery_inv_def)
  moreover
  have "d \<in> set (snd (recovery_collect E mgr))"
    if "d \<in> set (pending_logs_list mgr)" "recoverable E (log_dscs mgr d)" for d
    unfolding recovery_collect_def
    using collect_foldl_complete [OF recovery_inv_start, of "pending_logs_list mgr" mgr d E] that
    by simp
  ultimately show ?thesis by blast
qed

lemma do_recovery_Inr:
  assumes "do_recovery E mgr = Some (Inr (rv, mgr'))"
  shows "\<exists>m2. recovery_loop E (snd (recovery_collect E mgr)) (fst (recovery_collect E mgr)) =
                 Some (Inr m2) \<and>
              rv = M_R_SUCCESS \<and>
              mgr' = m2\<lparr>free_logs_list :=
                          snd (recovery_collect E mgr) @ free_logs_list m2\<rparr>"
  using assms
  by (auto simp: do_recovery_def list_splice_def split: option.splits sum.splits)

lemma recovery_loop_inv:
  assumes "recovery_loop E rl m = Some (Inr m2)" and "recovery_inv E mgr (m, rl)"
  shows "recovery_inv E mgr (m2, rl) \<and>
         (\<forall>x\<in>set rl. logorder (log_dscs m2 x) = INV_LOG_ORDER E)"
proof -
  have "recovery_inv E mgr (m2, rl) \<and> recovery_next E m2 rl = None"
    using assms(1)
  proof (rule recovery_loop_invariant [where I = "\<lambda>m. recovery_inv E mgr (m, rl)"])
    show "recovery_inv E mgr (m, rl)" by (rule assms(2))
  next
    fix m d m1
    assume "recovery_inv E mgr (m, rl)" "recovery_next E m rl = Some d"
      "recover_one E m d = Inr m1"
    then show "recovery_inv E mgr (m1, rl)"
      using recovery_inv_recover_one recovery_next_in_set by blast
  qed
  then show ?thesis by (simp add: recovery_next_None)
qed

text \<open>What a run of \<^verbatim>\<open>do_recovery\<close> that returns has done.\<close>

lemma do_recovery_effect:
  assumes run: "do_recovery E mgr = Some (Inr (rv, mgr'))"
  shows "rv = M_R_SUCCESS"
    and "known_logtypes_list mgr' = known_logtypes_list mgr"
    and "active_logs_list mgr' = active_logs_list mgr"
    and "free_logs_list mgr' = snd (recovery_collect E mgr) @ free_logs_list mgr"
    and "pending_logs_list mgr' =
           filter (\<lambda>x. \<not> recoverable E (log_dscs mgr x)) (pending_logs_list mgr)"
    and "\<forall>x. \<not> (x \<in> set (pending_logs_list mgr) \<and> recoverable E (log_dscs mgr x)) \<longrightarrow>
              log_dscs mgr' x = log_dscs mgr x"
    and "\<forall>x\<in>set (snd (recovery_collect E mgr)). logorder (log_dscs mgr' x) = INV_LOG_ORDER E"
    and "\<exists>new. trace mgr' = trace mgr @ new \<and>
           (\<forall>e\<in>set new. \<exists>d\<in>set (snd (recovery_collect E mgr)). recovery_event d e)"
proof -
  let ?rl = "snd (recovery_collect E mgr)"
  let ?m1 = "fst (recovery_collect E mgr)"
  obtain m2 where m2: "recovery_loop E ?rl ?m1 = Some (Inr m2)" "rv = M_R_SUCCESS"
      "mgr' = m2\<lparr>free_logs_list := ?rl @ free_logs_list m2\<rparr>"
    using do_recovery_Inr [OF run] by blast
  have "recovery_inv E mgr (?m1, ?rl)"
    using recovery_inv_collect [of E mgr] by simp
  from recovery_loop_inv [OF m2(1) this]
  have inv: "recovery_inv E mgr (m2, ?rl)"
    and alldone: "\<forall>x\<in>set ?rl. logorder (log_dscs m2 x) = INV_LOG_ORDER E"
    by simp_all
  show "rv = M_R_SUCCESS" by (rule m2(2))
  show "known_logtypes_list mgr' = known_logtypes_list mgr"
    using inv m2(3) by (simp add: recovery_inv_def)
  show "active_logs_list mgr' = active_logs_list mgr"
    using inv m2(3) by (simp add: recovery_inv_def)
  show "free_logs_list mgr' = ?rl @ free_logs_list mgr"
    using inv m2(3) by (simp add: recovery_inv_def)
  have "pending_logs_list mgr' = filter (\<lambda>x. x \<notin> set ?rl) (pending_logs_list mgr)"
    using inv m2(3) by (simp add: recovery_inv_def)
  also have "\<dots> = filter (\<lambda>x. \<not> recoverable E (log_dscs mgr x)) (pending_logs_list mgr)"
    by (rule filter_cong) (auto simp: recovery_collect_set)
  finally show "pending_logs_list mgr' =
           filter (\<lambda>x. \<not> recoverable E (log_dscs mgr x)) (pending_logs_list mgr)" .
  show "\<forall>x. \<not> (x \<in> set (pending_logs_list mgr) \<and> recoverable E (log_dscs mgr x)) \<longrightarrow>
              log_dscs mgr' x = log_dscs mgr x"
    using inv m2(3) by (auto simp: recovery_inv_def recovery_collect_set)
  show "\<forall>x\<in>set ?rl. logorder (log_dscs mgr' x) = INV_LOG_ORDER E"
    using alldone m2(3) by simp
  show "\<exists>new. trace mgr' = trace mgr @ new \<and>
           (\<forall>e\<in>set new. \<exists>d\<in>set ?rl. recovery_event d e)"
    using inv m2(3) by (simp add: recovery_inv_def)
qed

lemma recovery_event_dsc: "recovery_event d e \<Longrightarrow> event_dsc e = Some d"
  by (cases e) auto

lemma recovery_event_no_store: "recovery_event d e \<Longrightarrow> e \<noteq> PcmStore x v \<and> e \<noteq> PcmBarrier"
  by (cases e) auto

subsection \<open>Pending slots of unregistered types\<close>

text \<open>
  C8. A descriptor on the pending list that has no operations, or whose operations have
  no \<^verbatim>\<open>recovery_init\<close>, is left alone by a run of \<^verbatim>\<open>do_recovery\<close> that returns: it
  is still on the pending list, none of its fields has changed, the run has not put it on
  the free list, and no callback was invoked on it.
\<close>

theorem unrecoverable_pending_untouched:
  assumes run: "do_recovery E mgr = Some (Inr (rv, mgr'))"
    and d: "d \<in> set (pending_logs_list mgr)"
    and nr: "\<not> recoverable E (log_dscs mgr d)"
  shows "d \<in> set (pending_logs_list mgr') \<and>
         log_dscs mgr' d = log_dscs mgr d \<and>
         (d \<in> set (free_logs_list mgr') \<longrightarrow> d \<in> set (free_logs_list mgr)) \<and>
         (\<exists>new. trace mgr' = trace mgr @ new \<and> (\<forall>e\<in>set new. event_dsc e \<noteq> Some d))"
proof -
  have notin: "d \<notin> set (snd (recovery_collect E mgr))"
    using nr by (simp add: recovery_collect_set)
  obtain new where new: "trace mgr' = trace mgr @ new"
      "\<forall>e\<in>set new. \<exists>x\<in>set (snd (recovery_collect E mgr)). recovery_event x e"
    using do_recovery_effect(8) [OF run] by blast
  have "\<forall>e\<in>set new. event_dsc e \<noteq> Some d"
    using new(2) notin recovery_event_dsc by fastforce
  then have "\<exists>new. trace mgr' = trace mgr @ new \<and> (\<forall>e\<in>set new. event_dsc e \<noteq> Some d)"
    using new(1) by blast
  moreover have "d \<in> set (pending_logs_list mgr')"
    using do_recovery_effect(5) [OF run] d nr by simp
  moreover have "log_dscs mgr' d = log_dscs mgr d"
    using do_recovery_effect(6) [OF run] nr by blast
  moreover have "d \<in> set (free_logs_list mgr') \<longrightarrow> d \<in> set (free_logs_list mgr)"
    using do_recovery_effect(4) [OF run] notin by simp
  ultimately show ?thesis by blast
qed


theorem unrecoverable_pending_untouched_witness:
  "do_recovery ex_env ex_mgr = Some (Inr (M_R_SUCCESS, ex_mgr_recovered)) \<and>
   2 \<in> set (pending_logs_list ex_mgr) \<and>
   \<not> recoverable ex_env (log_dscs ex_mgr 2) \<and>
   2 \<in> set (pending_logs_list ex_mgr_recovered) \<and>
   log_dscs ex_mgr_recovered 2 = log_dscs ex_mgr 2 \<and>
   2 \<notin> set (free_logs_list ex_mgr_recovered)"
proof -
  have h2: "2 \<in> set (pending_logs_list ex_mgr)"
    by (simp add: ex_mgr_def)
  have h3: "\<not> recoverable ex_env (log_dscs ex_mgr 2)"
    by (simp add: ex_mgr_def recoverable_def ex_defs)
  have h4: "2 \<notin> set (free_logs_list ex_mgr)"
    by (simp add: ex_mgr_def)
  show ?thesis
    using unrecoverable_pending_untouched [OF ex_mgr_run h2 h3] ex_mgr_run h2 h3 h4
    by blast
qed

subsection \<open>The scheduler and the persisted tags\<close>

lemma collect_dsc_flags:
  assumes "recovery_keeps_flags E"
  shows "generic_flags (log_dscs (fst (collect_dsc E c x)) y) = generic_flags (log_dscs (fst c) y)"
proof (cases "recoverable E (log_dscs (fst c) x)")
  case False
  then show ?thesis by (simp add: collect_dsc_skip)
next
  case True
  obtain p dsc' where t: "keeps_flags (recovery_init (deref E p)) \<longrightarrow>
              generic_flags dsc' = generic_flags (log_dscs (fst c) x)"
     "collect_dsc E c x =
             ((fst c)\<lparr>log_dscs := (log_dscs (fst c))(x := dsc'),
                      trace := trace (fst c) @ [CallRecoveryInit p x],
                      pending_logs_list := removeAll x (pending_logs_list (fst c))\<rparr>,
              x # snd c)"
    using collect_dsc_take [OF True] by blast
  have "generic_flags dsc' = generic_flags (log_dscs (fst c) x)"
    using t(1) assms by (simp add: recovery_keeps_flags_def)
  then show ?thesis
    unfolding t(2) by simp
qed

lemma recover_one_flags:
  assumes "recovery_keeps_flags E" and "recover_one E m d = Inr m1"
  shows "generic_flags (log_dscs m1 y) = generic_flags (log_dscs m y)"
proof -
  obtain p q dsc' where t: "keeps_flags (recovery_do (deref E p)) \<longrightarrow>
            keeps_flags (recovery_prepare_next (deref E q)) \<longrightarrow>
              generic_flags dsc' = generic_flags (log_dscs m d)"
     "m1 = m\<lparr>log_dscs := (log_dscs m)(d := dsc'),
           trace := trace m @ [CallRecoveryDo p d, CallRecoveryPrepareNext q d]\<rparr>"
    using recover_one_effect [OF assms(2)] by blast
  have "generic_flags dsc' = generic_flags (log_dscs m d)"
    using t(1) assms(1) by (simp add: recovery_keeps_flags_def)
  then show ?thesis
    unfolding t(2) by simp
qed

lemma recovery_collect_flags:
  assumes "recovery_keeps_flags E"
  shows "\<forall>y. generic_flags (log_dscs (fst (recovery_collect E mgr)) y) =
              generic_flags (log_dscs mgr y)"
  unfolding recovery_collect_def
  by (rule foldl_invariant) (simp_all add: collect_dsc_flags [OF assms])

lemma do_recovery_flags:
  assumes run: "do_recovery E mgr = Some (Inr (rv, mgr'))" and keeps: "recovery_keeps_flags E"
  shows "generic_flags (log_dscs mgr' y) = generic_flags (log_dscs mgr y)"
proof -
  let ?rl = "snd (recovery_collect E mgr)"
  let ?m1 = "fst (recovery_collect E mgr)"
  obtain m2 where m2: "recovery_loop E ?rl ?m1 = Some (Inr m2)"
      "mgr' = m2\<lparr>free_logs_list := ?rl @ free_logs_list m2\<rparr>"
    using do_recovery_Inr [OF run] by blast
  have "(\<forall>y. generic_flags (log_dscs m2 y) = generic_flags (log_dscs mgr y)) \<and>
        recovery_next E m2 ?rl = None"
    using m2(1)
  proof (rule recovery_loop_invariant
           [where I = "\<lambda>m. \<forall>y. generic_flags (log_dscs m y) = generic_flags (log_dscs mgr y)"])
    show "\<forall>y. generic_flags (log_dscs ?m1 y) = generic_flags (log_dscs mgr y)"
      by (rule recovery_collect_flags [OF keeps])
  next
    fix m d m1
    assume "\<forall>y. generic_flags (log_dscs m y) = generic_flags (log_dscs mgr y)"
      "recovery_next E m ?rl = Some d" "recover_one E m d = Inr m1"
    then show "\<forall>y. generic_flags (log_dscs m1 y) = generic_flags (log_dscs mgr y)"
      using recover_one_flags [OF keeps] by simp
  qed
  then show ?thesis
    using m2(2) by simp
qed

text \<open>
  C10. \<^verbatim>\<open>do_recovery\<close> itself stores nothing in a metadata record. When the recovery
  callbacks of the registered types leave \<open>generic_flags\<close> alone, a run that returns
  leaves the flags of every slot as they were; so a descriptor it moved from the pending
  list to the free list carries the tag it had, and the run issued no persistent store.
\<close>

theorem recovery_keeps_tags:
  assumes run: "do_recovery E mgr = Some (Inr (rv, mgr'))" and keeps: "recovery_keeps_flags E"
  shows "(\<forall>x. generic_flags (log_dscs mgr' x) = generic_flags (log_dscs mgr x)) \<and>
         (\<forall>d\<in>set (pending_logs_list mgr).
            recoverable E (log_dscs mgr d) \<longrightarrow>
              d \<in> set (free_logs_list mgr') \<and>
              type_tag E (log_dscs mgr' d) = type_tag E (log_dscs mgr d)) \<and>
         (\<exists>new. trace mgr' = trace mgr @ new \<and> (\<forall>e\<in>set new. \<forall>x v. e \<noteq> PcmStore x v))"
proof -
  have flags: "\<forall>x. generic_flags (log_dscs mgr' x) = generic_flags (log_dscs mgr x)"
    using do_recovery_flags [OF run keeps] by simp
  have "d \<in> set (free_logs_list mgr')"
    if "d \<in> set (pending_logs_list mgr)" "recoverable E (log_dscs mgr d)" for d
    using that do_recovery_effect(4) [OF run] by (simp add: recovery_collect_set)
  moreover
  obtain new where new: "trace mgr' = trace mgr @ new"
      "\<forall>e\<in>set new. \<exists>x\<in>set (snd (recovery_collect E mgr)). recovery_event x e"
    using do_recovery_effect(8) [OF run] by blast
  have "\<forall>e\<in>set new. \<forall>x v. e \<noteq> PcmStore x v"
    using new(2) recovery_event_no_store by blast
  then have "\<exists>new. trace mgr' = trace mgr @ new \<and> (\<forall>e\<in>set new. \<forall>x v. e \<noteq> PcmStore x v)"
    using new(1) by blast
  ultimately show ?thesis
    using flags by (simp add: type_tag_def)
qed

lemma ex_env_keeps_flags: "recovery_keeps_flags ex_env"
proof -
  have "keeps_flags (recovery_init (deref ex_env p)) \<and>
        keeps_flags (recovery_do (deref ex_env p)) \<and>
        keeps_flags (recovery_prepare_next (deref ex_env p))" for p
    by (cases p) (simp_all add: keeps_flags_def NULL_LOG_OPS_def ex_env_def ex_ops_def)
  then show ?thesis
    by (simp add: recovery_keeps_flags_def)
qed

theorem recovery_keeps_tags_witness:
  "do_recovery ex_env ex_pending = Some (Inr (M_R_SUCCESS, ex_recovered)) \<and>
   recovery_keeps_flags ex_env \<and>
   0 \<in> set (pending_logs_list ex_pending) \<and>
   recoverable ex_env (log_dscs ex_pending 0) \<and>
   0 \<in> set (free_logs_list ex_recovered) \<and>
   type_tag ex_env (log_dscs ex_recovered 0) = 2 \<and>
   generic_flags (log_dscs ex_recovered 0) = 10"
proof -
  have h1: "0 \<in> set (pending_logs_list ex_pending)"
    by (simp add: ex_pending_def)
  have h2: "recoverable ex_env (log_dscs ex_pending 0)"
    by (simp add: ex_pending_def recoverable_def ex_defs)
  have h3: "generic_flags (log_dscs ex_pending 0) = 10"
    by (simp add: ex_pending_def ex_defs)
  show ?thesis
    using recovery_keeps_tags [OF ex_recovered_run ex_env_keeps_flags]
      ex_recovered_run ex_env_keeps_flags h1 h2 h3
    by (simp add: type_tag_def ex_env_def)
qed

subsection \<open>The order of recovery\<close>

lemma takeWhile_first:
  "d \<notin> set pre \<Longrightarrow> takeWhile (\<lambda>x. x \<noteq> d) (pre @ d # post) = pre"
  by (induction pre) auto

lemma recovery_next_least:
  assumes "recovery_next E m rl = Some d"
  shows "least_order E m rl d"
proof -
  obtain pre post where pp: "rl = pre @ d # post"
      "logorder (log_dscs m d) \<noteq> INV_LOG_ORDER E"
      "\<forall>x\<in>set pre. logorder (log_dscs m x) \<noteq> INV_LOG_ORDER E \<longrightarrow>
           logorder (log_dscs m d) < logorder (log_dscs m x)"
      "\<forall>x\<in>set post. logorder (log_dscs m x) \<noteq> INV_LOG_ORDER E \<longrightarrow>
           logorder (log_dscs m d) \<le> logorder (log_dscs m x)"
    using recovery_next_Some [OF assms] by blast
  have "d \<notin> set pre"
    using pp(2,3) by auto
  then have tw: "takeWhile (\<lambda>x. x \<noteq> d) rl = pre"
    unfolding pp(1) by (rule takeWhile_first)
  have "\<forall>x\<in>set rl. logorder (log_dscs m x) \<noteq> INV_LOG_ORDER E \<longrightarrow>
           logorder (log_dscs m d) \<le> logorder (log_dscs m x)"
    unfolding pp(1) using pp(3,4) by auto
  then show ?thesis
    unfolding least_order_def tw using pp by simp
qed

lemma ordered_run_last:
  assumes "ordered_run E rl m m1" and "least_order E m1 rl d"
  shows "ordered_run E rl m
           (m1\<lparr>log_dscs := (log_dscs m1)(d := dsc'),
               trace := trace m1 @ [CallRecoveryDo p d, CallRecoveryPrepareNext q d]\<rparr>)"
  using assms
  by (induction rule: ordered_run.induct) (auto intro: ordered_run.intros)

lemma recovery_loop_ordered:
  assumes "recovery_loop E rl m = Some (Inr m')"
  shows "ordered_run E rl m m' \<and> (\<forall>x\<in>set rl. logorder (log_dscs m' x) = INV_LOG_ORDER E)"
proof -
  have "ordered_run E rl m m' \<and> recovery_next E m' rl = None"
    using assms
  proof (rule recovery_loop_invariant [where I = "\<lambda>x. ordered_run E rl m x"])
    show "ordered_run E rl m m" by (rule ordered_run_none)
  next
    fix x d x1
    assume run: "ordered_run E rl m x" and sel: "recovery_next E x rl = Some d"
      and one: "recover_one E x d = Inr x1"
    obtain p q dsc' where "x1 = x\<lparr>log_dscs := (log_dscs x)(d := dsc'),
                   trace := trace x @ [CallRecoveryDo p d, CallRecoveryPrepareNext q d]\<rparr>"
      using recover_one_effect [OF one] by blast
    then show "ordered_run E rl m x1"
      using ordered_run_last [OF run recovery_next_least [OF sel]] by simp
  qed
  then show ?thesis
    by (simp add: recovery_next_None)
qed


text \<open>
  C1. The scan of the recovery list finds nothing exactly when every order is
  \<^verbatim>\<open>INV_LOG_ORDER\<close>, and otherwise the descriptor of least order, the first of the list
  among equals. The loop returns at once when the scan finds nothing; otherwise it calls
  \<^verbatim>\<open>recovery_do\<close> and then \<^verbatim>\<open>recovery_prepare_next\<close> on the descriptor found and goes
  round again. A loop that returns has made a sequence of such iterations and has left
  every order of the list at \<^verbatim>\<open>INV_LOG_ORDER\<close>. The recovery list of \<^verbatim>\<open>do_recovery\<close>
  holds the pending descriptors that have \<^verbatim>\<open>recovery_init\<close>, and when \<^verbatim>\<open>do_recovery\<close>
  returns they are on the free list and off the pending list.
\<close>

theorem recovery_in_order:
  "(recovery_next E m rl = None \<longleftrightarrow>
      (\<forall>x\<in>set rl. logorder (log_dscs m x) = INV_LOG_ORDER E)) \<and>
   (recovery_next E m rl = Some d \<longrightarrow> least_order E m rl d) \<and>
   (recovery_next E m rl = None \<longrightarrow> recovery_loop E rl m = Some (Inr m)) \<and>
   (recovery_next E m rl = Some d \<longrightarrow> recover_one E m d = Inr m1 \<longrightarrow>
      recovery_loop E rl m = recovery_loop E rl m1 \<and>
      (\<exists>p q dsc'.
         m1 = m\<lparr>log_dscs := (log_dscs m)(d := dsc'),
                 trace := trace m @ [CallRecoveryDo p d, CallRecoveryPrepareNext q d]\<rparr>)) \<and>
   (recovery_loop E rl m = Some (Inr m') \<longrightarrow>
      ordered_run E rl m m' \<and>
      (\<forall>x\<in>set rl. logorder (log_dscs m' x) = INV_LOG_ORDER E)) \<and>
   (do_recovery E mgr = Some (Inr (rv, mgr')) \<longrightarrow>
      set (snd (recovery_collect E mgr)) =
        {x \<in> set (pending_logs_list mgr). recoverable E (log_dscs mgr x)} \<and>
      (\<exists>m2. ordered_run E (snd (recovery_collect E mgr)) (fst (recovery_collect E mgr)) m2 \<and>
            mgr' = m2\<lparr>free_logs_list :=
                         snd (recovery_collect E mgr) @ free_logs_list mgr\<rparr>) \<and>
      (\<forall>x\<in>set (pending_logs_list mgr).
         recoverable E (log_dscs mgr x) \<longrightarrow>
           x \<in> set (free_logs_list mgr') \<and> x \<notin> set (pending_logs_list mgr') \<and>
           logorder (log_dscs mgr' x) = INV_LOG_ORDER E))"
proof -
  have a: "recovery_next E m rl = None \<longleftrightarrow>
      (\<forall>x\<in>set rl. logorder (log_dscs m x) = INV_LOG_ORDER E)"
    by (rule recovery_next_None)
  have b: "recovery_next E m rl = Some d \<longrightarrow> least_order E m rl d"
    using recovery_next_least by blast
  have c: "recovery_next E m rl = None \<longrightarrow> recovery_loop E rl m = Some (Inr m)"
    by (subst recovery_loop.simps) simp
  have d1: "recovery_loop E rl m = recovery_loop E rl m1"
    if "recovery_next E m rl = Some d" "recover_one E m d = Inr m1"
    using that by (subst recovery_loop.simps) simp
  have d2: "\<exists>p q dsc'.
         m1 = m\<lparr>log_dscs := (log_dscs m)(d := dsc'),
                 trace := trace m @ [CallRecoveryDo p d, CallRecoveryPrepareNext q d]\<rparr>"
    if "recover_one E m d = Inr m1"
    using recover_one_effect [OF that] by blast
  have e: "recovery_loop E rl m = Some (Inr m') \<longrightarrow>
      ordered_run E rl m m' \<and>
      (\<forall>x\<in>set rl. logorder (log_dscs m' x) = INV_LOG_ORDER E)"
    using recovery_loop_ordered by blast
  have f: "set (snd (recovery_collect E mgr)) =
        {x \<in> set (pending_logs_list mgr). recoverable E (log_dscs mgr x)} \<and>
      (\<exists>m2. ordered_run E (snd (recovery_collect E mgr)) (fst (recovery_collect E mgr)) m2 \<and>
            mgr' = m2\<lparr>free_logs_list :=
                         snd (recovery_collect E mgr) @ free_logs_list mgr\<rparr>) \<and>
      (\<forall>x\<in>set (pending_logs_list mgr).
         recoverable E (log_dscs mgr x) \<longrightarrow>
           x \<in> set (free_logs_list mgr') \<and> x \<notin> set (pending_logs_list mgr') \<and>
           logorder (log_dscs mgr' x) = INV_LOG_ORDER E)"
    if run: "do_recovery E mgr = Some (Inr (rv, mgr'))"
  proof -
    let ?rl = "snd (recovery_collect E mgr)"
    let ?m1 = "fst (recovery_collect E mgr)"
    obtain m2 where m2: "recovery_loop E ?rl ?m1 = Some (Inr m2)"
        "mgr' = m2\<lparr>free_logs_list := ?rl @ free_logs_list m2\<rparr>"
      using do_recovery_Inr [OF run] by blast
    have "recovery_inv E mgr (?m1, ?rl)"
      using recovery_inv_collect [of E mgr] by simp
    then have "free_logs_list m2 = free_logs_list mgr"
      using recovery_loop_inv [OF m2(1)] by (simp add: recovery_inv_def)
    then have "ordered_run E ?rl ?m1 m2 \<and>
               mgr' = m2\<lparr>free_logs_list := ?rl @ free_logs_list mgr\<rparr>"
      using recovery_loop_ordered [OF m2(1)] m2(2) by simp
    then have "\<exists>m2. ordered_run E ?rl ?m1 m2 \<and>
                 mgr' = m2\<lparr>free_logs_list := ?rl @ free_logs_list mgr\<rparr>"
      by blast
    moreover
    have "x \<in> set (free_logs_list mgr') \<and> x \<notin> set (pending_logs_list mgr') \<and>
          logorder (log_dscs mgr' x) = INV_LOG_ORDER E"
      if "x \<in> set (pending_logs_list mgr)" "recoverable E (log_dscs mgr x)" for x
    proof -
      have "x \<in> set ?rl" using that by (simp add: recovery_collect_set)
      then show ?thesis
        using do_recovery_effect(4,5,7) [OF run] that by simp
    qed
    ultimately show ?thesis
      by (simp add: recovery_collect_set)
  qed
  show ?thesis
    using a b c d1 d2 e f by blast
qed

lemma ex_mgr_collect:
  "snd (recovery_collect ex_env ex_mgr) = [1, 0] \<and>
   recovery_next ex_env (fst (recovery_collect ex_env ex_mgr)) [1, 0] = Some 1 \<and>
   logorder (log_dscs (fst (recovery_collect ex_env ex_mgr)) 1) = 1 \<and>
   logorder (log_dscs (fst (recovery_collect ex_env ex_mgr)) 0) = 3"
  by (simp add: recovery_next_def scan_dsc_def recovery_collect_def collect_dsc_def
        ex_mgr_def ex_defs)

lemma ex_mgr_recovered_trace:
  "trace ex_mgr_recovered =
     [CallRecoveryInit (client_ops 2) 0, CallRecoveryInit (client_ops 2) 1,
      CallRecoveryDo (client_ops 2) 1, CallRecoveryPrepareNext (client_ops 2) 1,
      CallRecoveryDo (client_ops 2) 0, CallRecoveryPrepareNext (client_ops 2) 0]"
  by (simp add: ex_mgr_recovered_def do_recovery_def recovery_loop.simps recover_one_def
        recovery_next_def scan_dsc_def recovery_collect_def collect_dsc_def
        ex_mgr_def ex_defs)

theorem recovery_in_order_witness:
  "recovery_next ex_env (fst (recovery_collect ex_env ex_mgr)) [1, 0] = Some 1 \<and>
   least_order ex_env (fst (recovery_collect ex_env ex_mgr)) [1, 0] 1 \<and>
   do_recovery ex_env ex_mgr = Some (Inr (M_R_SUCCESS, ex_mgr_recovered)) \<and>
   recoverable ex_env (log_dscs ex_mgr 0) \<and>
   0 \<in> set (free_logs_list ex_mgr_recovered) \<and>
   0 \<notin> set (pending_logs_list ex_mgr_recovered) \<and>
   logorder (log_dscs ex_mgr_recovered 0) = INV_LOG_ORDER ex_env \<and>
   trace ex_mgr_recovered =
     [CallRecoveryInit (client_ops 2) 0, CallRecoveryInit (client_ops 2) 1,
      CallRecoveryDo (client_ops 2) 1, CallRecoveryPrepareNext (client_ops 2) 1,
      CallRecoveryDo (client_ops 2) 0, CallRecoveryPrepareNext (client_ops 2) 0]"
proof -
  have h1: "0 \<in> set (pending_logs_list ex_mgr)"
    by (simp add: ex_mgr_def)
  have h2: "recoverable ex_env (log_dscs ex_mgr 0)"
    by (simp add: ex_mgr_def recoverable_def ex_defs)
  show ?thesis
    using recovery_in_order
            [of ex_env "fst (recovery_collect ex_env ex_mgr)" "[1, 0]" 1 _ _
                ex_mgr M_R_SUCCESS ex_mgr_recovered]
      ex_mgr_collect ex_mgr_run ex_mgr_recovered_trace h1 h2
    by simp
qed


subsection \<open>When the ordering loop returns\<close>

text \<open>
  The loop returns whenever each of its iterations lowers some rank of the manager.
\<close>

lemma recovery_loop_returns:
  fixes rank :: "m_logmgr \<Rightarrow> nat"
  assumes "\<And>m d m1. recovery_next E m rl = Some d \<Longrightarrow> recover_one E m d = Inr m1 \<Longrightarrow>
             rank m1 < rank m"
  shows "\<exists>r. recovery_loop E rl m = Some r"
proof (induction m rule: measure_induct_rule [where f = rank])
  case (less m)
  show ?case
  proof (cases "recovery_next E m rl")
    case None
    then have "recovery_loop E rl m = Some (Inr m)"
      by (subst recovery_loop.simps) simp
    then show ?thesis by blast
  next
    case (Some d)
    show ?thesis
    proof (cases "recover_one E m d")
      case (Inl f)
      then have "recovery_loop E rl m = Some (Inl f)"
        using Some by (subst recovery_loop.simps) simp
      then show ?thesis by blast
    next
      case (Inr m1)
      then have "recovery_loop E rl m = recovery_loop E rl m1"
        using Some by (subst recovery_loop.simps) simp
      moreover have "\<exists>r. recovery_loop E rl m1 = Some r"
        using less.IH assms [OF Some Inr] by blast
      ultimately show ?thesis by simp
    qed
  qed
qed

lemma filter_length_less:
  assumes "\<And>x. Q x \<Longrightarrow> P x" and "d \<in> set xs" and "P d" and "\<not> Q d"
  shows "length (filter Q xs) < length (filter P xs)"
  using assms(2)
proof (induction xs)
  case Nil
  then show ?case by simp
next
  case (Cons x xs)
  have le: "length (filter Q xs) \<le> length (filter P xs)"
  proof (induction xs)
    case Nil
    show ?case by simp
  next
    case (Cons y ys)
    then show ?case using assms(1) [of y] by auto
  qed
  show ?case
  proof (cases "x = d")
    case True
    then show ?thesis using le assms(3,4) by simp
  next
    case False
    then have "d \<in> set xs" using Cons.prems by simp
    then have "length (filter Q xs) < length (filter P xs)" by (rule Cons.IH)
    then show ?thesis using assms(1) [of x] by auto
  qed
qed

lemma recover_one_ends:
  assumes "recover_one E m d = Inr m1" and "ends_recovery E"
  shows "logorder (log_dscs m1 d) = INV_LOG_ORDER E \<and>
         (\<forall>x. x \<noteq> d \<longrightarrow> log_dscs m1 x = log_dscs m x)"
proof -
  have "\<And>q f. recovery_prepare_next (deref E q) = Some f \<Longrightarrow>
          \<forall>dsc. logorder (snd (f dsc)) = INV_LOG_ORDER E"
    using assms(2) by (auto simp: ends_recovery_def split: option.splits)
  then show ?thesis
    using assms(1)
    by (auto simp: recover_one_def invoke_def split: option.splits)
qed

text \<open>
  When every \<^verbatim>\<open>recovery_prepare_next\<close> ends the recovery of its log, the number of
  descriptors of the recovery list that still have an order falls with every iteration,
  and the loop returns; so does \<^verbatim>\<open>do_recovery\<close>.
\<close>

lemma recovery_loop_returns_one_step:
  assumes one: "ends_recovery E"
  shows "\<exists>r. recovery_loop E rl m = Some r"
proof (rule recovery_loop_returns
         [where rank = "\<lambda>m. length (filter (\<lambda>x. logorder (log_dscs m x) \<noteq> INV_LOG_ORDER E) rl)"])
  fix m d m1
  assume sel: "recovery_next E m rl = Some d" and run: "recover_one E m d = Inr m1"
  have inv: "logorder (log_dscs m1 d) = INV_LOG_ORDER E"
    and same: "\<forall>x. x \<noteq> d \<longrightarrow> log_dscs m1 x = log_dscs m x"
    using recover_one_ends [OF run one] by simp_all
  have d: "d \<in> set rl" "logorder (log_dscs m d) \<noteq> INV_LOG_ORDER E"
    using recovery_next_least [OF sel] by (simp_all add: least_order_def)
  show "length (filter (\<lambda>x. logorder (log_dscs m1 x) \<noteq> INV_LOG_ORDER E) rl)
        < length (filter (\<lambda>x. logorder (log_dscs m x) \<noteq> INV_LOG_ORDER E) rl)"
  proof (rule filter_length_less [where d = d])
    fix x
    assume "logorder (log_dscs m1 x) \<noteq> INV_LOG_ORDER E"
    then show "logorder (log_dscs m x) \<noteq> INV_LOG_ORDER E"
      using inv same by (cases "x = d") auto
  next
    show "d \<in> set rl" by (rule d(1))
    show "logorder (log_dscs m d) \<noteq> INV_LOG_ORDER E" by (rule d(2))
    show "\<not> logorder (log_dscs m1 d) \<noteq> INV_LOG_ORDER E" using inv by simp
  qed
qed

lemma do_recovery_returns_one_step:
  assumes "ends_recovery E"
  shows "\<exists>r. do_recovery E mgr = Some r"
proof -
  obtain r where "recovery_loop E (snd (recovery_collect E mgr)) (fst (recovery_collect E mgr))
                    = Some r"
    using recovery_loop_returns_one_step [OF assms] by blast
  then show ?thesis
    by (cases r) (simp_all add: do_recovery_def)
qed

lemma ex_env_ends_recovery: "ends_recovery ex_env"
proof -
  have "case recovery_prepare_next (deref ex_env p) of
          None \<Rightarrow> True
        | Some f \<Rightarrow> (\<forall>dsc. logorder (snd (f dsc)) = INV_LOG_ORDER ex_env)" for p
    by (cases p) (simp_all add: NULL_LOG_OPS_def ex_env_def ex_ops_def)
  then show ?thesis
    by (simp add: ends_recovery_def)
qed

lemma ex_env_do_recovery_returns: "\<exists>r. do_recovery ex_env mgr = Some r"
  using ex_env_ends_recovery by (rule do_recovery_returns_one_step)


subsection \<open>Registration of a log type\<close>

lemma call_alloc_effect:
  assumes "call_alloc E (m\<lparr>log_dscs := (log_dscs m)(d := (log_dscs m d)\<lparr>ops := opsp\<rparr>)\<rparr>) d = Inr m'"
  shows "\<exists>p f. opsp = Some p \<and> alloc (deref E p) = Some f \<and>
               fst (f ((log_dscs m d)\<lparr>ops := opsp\<rparr>)) = M_R_SUCCESS \<and>
               m' = m\<lparr>log_dscs := (log_dscs m)(d := snd (f ((log_dscs m d)\<lparr>ops := opsp\<rparr>))),
                       trace := trace m @ [CallAlloc p d]\<rparr>"
  using assms
  by (auto simp: call_alloc_def invoke_def split: option.splits if_splits)

lemma call_alloc_lists:
  assumes "call_alloc E m0 d = Inr m'"
  shows "known_logtypes_list m' = known_logtypes_list m0 \<and>
         free_logs_list m' = free_logs_list m0 \<and>
         active_logs_list m' = active_logs_list m0 \<and>
         pending_logs_list m' = pending_logs_list m0 \<and>
         (\<forall>x. x \<noteq> d \<longrightarrow> log_dscs m' x = log_dscs m0 x)"
  using assms
  by (auto simp: call_alloc_def invoke_def split: option.splits if_splits)

lemma register_pending_lists:
  "register_pending E t opsp m ds = Inr m' \<Longrightarrow>
     known_logtypes_list m' = known_logtypes_list m \<and>
     free_logs_list m' = free_logs_list m \<and>
     active_logs_list m' = active_logs_list m \<and>
     pending_logs_list m' = pending_logs_list m"
proof (induction ds arbitrary: m)
  case Nil
  then show ?case by simp
next
  case (Cons x ds)
  show ?case
  proof (cases "type_tag E (log_dscs m x) = type_word t")
    case False
    then show ?thesis using Cons by simp
  next
    case True
    let ?m0 = "m\<lparr>log_dscs := (log_dscs m)(x := (log_dscs m x)\<lparr>ops := opsp\<rparr>)\<rparr>"
    obtain m1 where m1: "call_alloc E ?m0 x = Inr m1" "register_pending E t opsp m1 ds = Inr m'"
      using Cons.prems True by (auto split: sum.splits)
    show ?thesis
      using Cons.IH [OF m1(2)] call_alloc_lists [OF m1(1)] by simp
  qed
qed

lemma register_pending_others:
  "register_pending E t opsp m ds = Inr m' \<Longrightarrow> d \<notin> set ds \<Longrightarrow> log_dscs m' d = log_dscs m d"
proof (induction ds arbitrary: m)
  case Nil
  then show ?case by simp
next
  case (Cons x ds)
  show ?case
  proof (cases "type_tag E (log_dscs m x) = type_word t")
    case False
    then show ?thesis using Cons by simp
  next
    case True
    let ?m0 = "m\<lparr>log_dscs := (log_dscs m)(x := (log_dscs m x)\<lparr>ops := opsp\<rparr>)\<rparr>"
    obtain m1 where m1: "call_alloc E ?m0 x = Inr m1" "register_pending E t opsp m1 ds = Inr m'"
      using Cons.prems True by (auto split: sum.splits)
    have "log_dscs m' d = log_dscs m1 d"
      using Cons.IH [OF m1(2)] Cons.prems(2) by simp
    also have "\<dots> = log_dscs ?m0 d"
      using call_alloc_lists [OF m1(1)] Cons.prems(2) by simp
    also have "\<dots> = log_dscs m d"
      using Cons.prems(2) by simp
    finally show ?thesis .
  qed
qed

lemma register_pending_miss:
  "register_pending E t opsp m ds = Inr m' \<Longrightarrow> distinct ds \<Longrightarrow>
   type_tag E (log_dscs m d) \<noteq> type_word t \<Longrightarrow> log_dscs m' d = log_dscs m d"
proof (induction ds arbitrary: m)
  case Nil
  then show ?case by simp
next
  case (Cons x ds)
  show ?case
  proof (cases "type_tag E (log_dscs m x) = type_word t")
    case False
    then show ?thesis using Cons by simp
  next
    case True
    let ?m0 = "m\<lparr>log_dscs := (log_dscs m)(x := (log_dscs m x)\<lparr>ops := opsp\<rparr>)\<rparr>"
    obtain m1 where m1: "call_alloc E ?m0 x = Inr m1" "register_pending E t opsp m1 ds = Inr m'"
      using Cons.prems True by (auto split: sum.splits)
    have dx: "d \<noteq> x" using True Cons.prems(3) by auto
    have eq: "log_dscs m1 d = log_dscs m d"
      using call_alloc_lists [OF m1(1)] dx by simp
    have "distinct ds" using Cons.prems(2) by simp
    from Cons.IH [OF m1(2) this] eq Cons.prems(3) show ?thesis by simp
  qed
qed

lemma register_pending_hit:
  "register_pending E t opsp m ds = Inr m' \<Longrightarrow> distinct ds \<Longrightarrow> d \<in> set ds \<Longrightarrow>
   type_tag E (log_dscs m d) = type_word t \<Longrightarrow>
   \<exists>p f. opsp = Some p \<and> alloc (deref E p) = Some f \<and>
         fst (f ((log_dscs m d)\<lparr>ops := opsp\<rparr>)) = M_R_SUCCESS \<and>
         log_dscs m' d = snd (f ((log_dscs m d)\<lparr>ops := opsp\<rparr>))"
proof (induction ds arbitrary: m)
  case Nil
  then show ?case by simp
next
  case (Cons x ds)
  have dist: "distinct ds" and xds: "x \<notin> set ds" using Cons.prems(2) by simp_all
  show ?case
  proof (cases "type_tag E (log_dscs m x) = type_word t")
    case False
    then have "d \<in> set ds" using Cons.prems(3,4) by auto
    moreover have "register_pending E t opsp m ds = Inr m'" using Cons.prems(1) False by simp
    ultimately show ?thesis using Cons.IH dist Cons.prems(4) by blast
  next
    case True
    let ?m0 = "m\<lparr>log_dscs := (log_dscs m)(x := (log_dscs m x)\<lparr>ops := opsp\<rparr>)\<rparr>"
    obtain m1 where m1: "call_alloc E ?m0 x = Inr m1" "register_pending E t opsp m1 ds = Inr m'"
      using Cons.prems True by (auto split: sum.splits)
    obtain p f where pf: "opsp = Some p" "alloc (deref E p) = Some f"
        "fst (f ((log_dscs m x)\<lparr>ops := opsp\<rparr>)) = M_R_SUCCESS"
        "m1 = m\<lparr>log_dscs := (log_dscs m)(x := snd (f ((log_dscs m x)\<lparr>ops := opsp\<rparr>))),
                trace := trace m @ [CallAlloc p x]\<rparr>"
      using call_alloc_effect [OF m1(1)] by blast
    show ?thesis
    proof (cases "d = x")
      case True
      have "log_dscs m' x = log_dscs m1 x"
        using register_pending_others [OF m1(2) xds] .
      then show ?thesis using pf True by simp
    next
      case False
      then have d: "d \<in> set ds" using Cons.prems(3) by simp
      have eq: "log_dscs m1 d = log_dscs m d" using pf(4) False by simp
      then have "type_tag E (log_dscs m1 d) = type_word t" using Cons.prems(4) by simp
      from Cons.IH [OF m1(2) dist d this] eq show ?thesis by simp
    qed
  qed
qed

lemma register_pending_trace:
  "register_pending E t opsp m ds = Inr m' \<Longrightarrow> distinct ds \<Longrightarrow>
   trace m' = trace m @
     alloc_events opsp (filter (\<lambda>d. type_tag E (log_dscs m d) = type_word t) ds)"
proof (induction ds arbitrary: m)
  case Nil
  then show ?case by (cases opsp) simp_all
next
  case (Cons x ds)
  have dist: "distinct ds" and xds: "x \<notin> set ds" using Cons.prems(2) by simp_all
  show ?case
  proof (cases "type_tag E (log_dscs m x) = type_word t")
    case False
    then show ?thesis using Cons.IH [OF _ dist] Cons.prems(1) by simp
  next
    case True
    let ?m0 = "m\<lparr>log_dscs := (log_dscs m)(x := (log_dscs m x)\<lparr>ops := opsp\<rparr>)\<rparr>"
    obtain m1 where m1: "call_alloc E ?m0 x = Inr m1" "register_pending E t opsp m1 ds = Inr m'"
      using Cons.prems True by (auto split: sum.splits)
    obtain p f where pf0: "opsp = Some p" "alloc (deref E p) = Some f"
        "fst (f ((log_dscs m x)\<lparr>ops := opsp\<rparr>)) = M_R_SUCCESS"
        "m1 = m\<lparr>log_dscs := (log_dscs m)(x := snd (f ((log_dscs m x)\<lparr>ops := opsp\<rparr>))),
                trace := trace m @ [CallAlloc p x]\<rparr>"
      using call_alloc_effect [OF m1(1)] by blast
    note pf = pf0(1,4)
    have "\<forall>d\<in>set ds. log_dscs m1 d = log_dscs m d"
      using xds pf(2) by auto
    then have filt: "filter (\<lambda>d. type_tag E (log_dscs m1 d) = type_word t) ds =
                filter (\<lambda>d. type_tag E (log_dscs m d) = type_word t) ds"
      by (intro filter_cong) simp_all
    show ?thesis
      using Cons.IH [OF m1(2) dist] pf True filt by simp
  qed
qed

lemma known_once:
  "distinct (map fst kl) \<Longrightarrow> t \<in> fst ` set kl \<Longrightarrow> length (filter (\<lambda>e. fst e = t) kl) = 1"
proof (induction kl)
  case Nil
  then show ?case by simp
next
  case (Cons e kl)
  show ?case
  proof (cases "fst e = t")
    case True
    then have "t \<notin> fst ` set kl" using Cons.prems(1) by auto
    then have "filter (\<lambda>e. fst e = t) kl = []" by (auto simp: filter_empty_conv)
    then show ?thesis using True by simp
  next
    case False
    then show ?thesis using Cons by auto
  qed
qed

lemma known_none: "t \<notin> fst ` set kl \<Longrightarrow> filter (\<lambda>e. fst e = t) kl = []"
  by (auto simp: filter_empty_conv)

lemma register_logtype_known:
  "logtype_known t (known_logtypes_list mgr) \<Longrightarrow>
     register_logtype E mgr t opsp lock malloc_ok = Inr (M_R_SUCCESS, mgr)"
  by (simp add: register_logtype_def)

lemma register_logtype_nomem:
  "\<not> logtype_known t (known_logtypes_list mgr) \<Longrightarrow> \<not> malloc_ok \<Longrightarrow>
     register_logtype E mgr t opsp lock malloc_ok = Inr (M_R_NOMEMORY, mgr)"
  by (simp add: register_logtype_def)

lemma register_logtype_new:
  assumes new: "\<not> logtype_known t (known_logtypes_list mgr)" and ok: "malloc_ok"
    and run: "register_logtype E mgr t opsp lock malloc_ok = Inr (rv, mgr')"
  shows "rv = M_R_SUCCESS \<and>
         register_pending E t opsp
           (mgr\<lparr>known_logtypes_list := known_logtypes_list mgr @ [(t, opsp)]\<rparr>)
           (pending_logs_list mgr) = Inr mgr'"
  using assms
  by (auto simp: register_logtype_def list_add_tail_def split: sum.splits)

lemma register_logtype_fresh:
  assumes new: "\<not> logtype_known t (known_logtypes_list mgr)" and ok: "malloc_ok"
    and dist: "distinct (pending_logs_list mgr)"
    and run: "register_logtype E mgr t opsp lock malloc_ok = Inr (rv, mgr')"
  shows "rv = M_R_SUCCESS \<and>
      known_logtypes_list mgr' = known_logtypes_list mgr @ [(t, opsp)] \<and>
      free_logs_list mgr' = free_logs_list mgr \<and>
      active_logs_list mgr' = active_logs_list mgr \<and>
      pending_logs_list mgr' = pending_logs_list mgr \<and>
      trace mgr' = trace mgr @
        alloc_events opsp
          (filter (\<lambda>d. type_tag E (log_dscs mgr d) = type_word t) (pending_logs_list mgr)) \<and>
      (\<forall>d\<in>set (pending_logs_list mgr).
         type_tag E (log_dscs mgr d) = type_word t \<longrightarrow>
           (\<exists>p f. opsp = Some p \<and> alloc (deref E p) = Some f \<and>
                  fst (f ((log_dscs mgr d)\<lparr>ops := Some p\<rparr>)) = M_R_SUCCESS \<and>
                  log_dscs mgr' d = snd (f ((log_dscs mgr d)\<lparr>ops := Some p\<rparr>)))) \<and>
      (\<forall>d. d \<notin> set (pending_logs_list mgr) \<or> type_tag E (log_dscs mgr d) \<noteq> type_word t \<longrightarrow>
           log_dscs mgr' d = log_dscs mgr d)"
proof -
  let ?m0 = "mgr\<lparr>known_logtypes_list := known_logtypes_list mgr @ [(t, opsp)]\<rparr>"
  have rv: "rv = M_R_SUCCESS"
    and rp: "register_pending E t opsp ?m0 (pending_logs_list mgr) = Inr mgr'"
    using register_logtype_new [OF new ok run] by simp_all
  have l1: "known_logtypes_list mgr' = known_logtypes_list mgr @ [(t, opsp)]"
    and l2: "free_logs_list mgr' = free_logs_list mgr"
    and l3: "active_logs_list mgr' = active_logs_list mgr"
    and l4: "pending_logs_list mgr' = pending_logs_list mgr"
    using register_pending_lists [OF rp] by simp_all
  have tr: "trace mgr' = trace mgr @
        alloc_events opsp
          (filter (\<lambda>d. type_tag E (log_dscs mgr d) = type_word t) (pending_logs_list mgr))"
    using register_pending_trace [OF rp dist] by simp
  have H: "\<forall>d\<in>set (pending_logs_list mgr).
         type_tag E (log_dscs mgr d) = type_word t \<longrightarrow>
           (\<exists>p f. opsp = Some p \<and> alloc (deref E p) = Some f \<and>
                  fst (f ((log_dscs mgr d)\<lparr>ops := Some p\<rparr>)) = M_R_SUCCESS \<and>
                  log_dscs mgr' d = snd (f ((log_dscs mgr d)\<lparr>ops := Some p\<rparr>)))"
  proof (intro ballI impI)
    fix d
    assume d: "d \<in> set (pending_logs_list mgr)" "type_tag E (log_dscs mgr d) = type_word t"
    have t0: "type_tag E (log_dscs ?m0 d) = type_word t" using d(2) by simp
    obtain p f where pf: "opsp = Some p" "alloc (deref E p) = Some f"
         "fst (f ((log_dscs ?m0 d)\<lparr>ops := opsp\<rparr>)) = M_R_SUCCESS"
         "log_dscs mgr' d = snd (f ((log_dscs ?m0 d)\<lparr>ops := opsp\<rparr>))"
      using register_pending_hit [OF rp dist d(1) t0] by blast
    show "\<exists>p f. opsp = Some p \<and> alloc (deref E p) = Some f \<and>
                  fst (f ((log_dscs mgr d)\<lparr>ops := Some p\<rparr>)) = M_R_SUCCESS \<and>
                  log_dscs mgr' d = snd (f ((log_dscs mgr d)\<lparr>ops := Some p\<rparr>))"
    proof (intro exI conjI)
      show "opsp = Some p" by (rule pf(1))
      show "alloc (deref E p) = Some f" by (rule pf(2))
      show "fst (f ((log_dscs mgr d)\<lparr>ops := Some p\<rparr>)) = M_R_SUCCESS"
        using pf(1,3) by simp
      show "log_dscs mgr' d = snd (f ((log_dscs mgr d)\<lparr>ops := Some p\<rparr>))"
        using pf(1,4) by simp
    qed
  qed
  have M: "\<forall>d. d \<notin> set (pending_logs_list mgr) \<or>
                type_tag E (log_dscs mgr d) \<noteq> type_word t \<longrightarrow>
           log_dscs mgr' d = log_dscs mgr d"
  proof (intro allI impI)
    fix d
    assume "d \<notin> set (pending_logs_list mgr) \<or> type_tag E (log_dscs mgr d) \<noteq> type_word t"
    then show "log_dscs mgr' d = log_dscs mgr d"
    proof
      assume "d \<notin> set (pending_logs_list mgr)"
      then show ?thesis using register_pending_others [OF rp] by simp
    next
      assume "type_tag E (log_dscs mgr d) \<noteq> type_word t"
      then have "type_tag E (log_dscs ?m0 d) \<noteq> type_word t" by simp
      then show ?thesis using register_pending_miss [OF rp dist] by simp
    qed
  qed
  show ?thesis
    by (rule conjI [OF rv conjI [OF l1 conjI [OF l2 conjI [OF l3 conjI [OF l4
          conjI [OF tr conjI [OF H M]]]]]]])
qed

lemma register_logtype_once:
  assumes dist: "distinct (map fst (known_logtypes_list mgr))"
    and run: "register_logtype E mgr t opsp lock malloc_ok = Inr (M_R_SUCCESS, mgr')"
  shows "distinct (map fst (known_logtypes_list mgr')) \<and>
      length (filter (\<lambda>e. fst e = t) (known_logtypes_list mgr')) = 1"
proof (cases "logtype_known t (known_logtypes_list mgr)")
  case True
  then have "mgr' = mgr" using run register_logtype_known [OF True] by simp
  then show ?thesis
    using dist True known_once [of "known_logtypes_list mgr" t]
    by (simp add: logtype_known_iff)
next
  case False
  have ok: "malloc_ok"
    using run register_logtype_nomem [OF False] by (cases malloc_ok) simp_all
  have "register_pending E t opsp
         (mgr\<lparr>known_logtypes_list := known_logtypes_list mgr @ [(t, opsp)]\<rparr>)
         (pending_logs_list mgr) = Inr mgr'"
    using register_logtype_new [OF False ok run] by simp
  from register_pending_lists [OF this]
  have "known_logtypes_list mgr' = known_logtypes_list mgr @ [(t, opsp)]"
    by simp
  then show ?thesis
    using dist False known_none [of t "known_logtypes_list mgr"]
    by (simp add: logtype_known_iff)
qed

text \<open>
  C6. Registration of a type that is already in the list returns \<^verbatim>\<open>M_R_SUCCESS\<close> and
  changes nothing: no entry is added and no callback is invoked. Registration of a new
  type (when \<^verbatim>\<open>malloc\<close> succeeds; otherwise the result is \<^verbatim>\<open>M_R_NOMEMORY\<close> and nothing
  changes) appends the entry and then, for exactly the pending descriptors whose tag is the
  type, in the order of the pending list, sets the operations and calls \<^verbatim>\<open>alloc\<close>; no
  other descriptor and no list is touched. A list of known types without duplicates stays
  so, and after a successful registration it has exactly one entry of the type.
\<close>

theorem register_logtype_contract:
  "(logtype_known t (known_logtypes_list mgr) \<longrightarrow>
      register_logtype E mgr t opsp lock malloc_ok = Inr (M_R_SUCCESS, mgr)) \<and>
   (\<not> logtype_known t (known_logtypes_list mgr) \<longrightarrow> \<not> malloc_ok \<longrightarrow>
      register_logtype E mgr t opsp lock malloc_ok = Inr (M_R_NOMEMORY, mgr)) \<and>
   (\<not> logtype_known t (known_logtypes_list mgr) \<longrightarrow> malloc_ok \<longrightarrow>
    distinct (pending_logs_list mgr) \<longrightarrow>
    register_logtype E mgr t opsp lock malloc_ok = Inr (rv, mgr') \<longrightarrow>
      rv = M_R_SUCCESS \<and>
      known_logtypes_list mgr' = known_logtypes_list mgr @ [(t, opsp)] \<and>
      free_logs_list mgr' = free_logs_list mgr \<and>
      active_logs_list mgr' = active_logs_list mgr \<and>
      pending_logs_list mgr' = pending_logs_list mgr \<and>
      trace mgr' = trace mgr @
        alloc_events opsp
          (filter (\<lambda>d. type_tag E (log_dscs mgr d) = type_word t) (pending_logs_list mgr)) \<and>
      (\<forall>d\<in>set (pending_logs_list mgr).
         type_tag E (log_dscs mgr d) = type_word t \<longrightarrow>
           (\<exists>p f. opsp = Some p \<and> alloc (deref E p) = Some f \<and>
                  fst (f ((log_dscs mgr d)\<lparr>ops := Some p\<rparr>)) = M_R_SUCCESS \<and>
                  log_dscs mgr' d = snd (f ((log_dscs mgr d)\<lparr>ops := Some p\<rparr>)))) \<and>
      (\<forall>d. d \<notin> set (pending_logs_list mgr) \<or> type_tag E (log_dscs mgr d) \<noteq> type_word t \<longrightarrow>
           log_dscs mgr' d = log_dscs mgr d)) \<and>
   (distinct (map fst (known_logtypes_list mgr)) \<longrightarrow>
    register_logtype E mgr t opsp lock malloc_ok = Inr (M_R_SUCCESS, mgr') \<longrightarrow>
      distinct (map fst (known_logtypes_list mgr')) \<and>
      length (filter (\<lambda>e. fst e = t) (known_logtypes_list mgr')) = 1)"
proof -
  have A: "logtype_known t (known_logtypes_list mgr) \<longrightarrow>
      register_logtype E mgr t opsp lock malloc_ok = Inr (M_R_SUCCESS, mgr)"
    by (intro impI) (rule register_logtype_known)
  have B: "\<not> logtype_known t (known_logtypes_list mgr) \<longrightarrow> \<not> malloc_ok \<longrightarrow>
      register_logtype E mgr t opsp lock malloc_ok = Inr (M_R_NOMEMORY, mgr)"
    by (intro impI) (rule register_logtype_nomem)
  have C: "\<not> logtype_known t (known_logtypes_list mgr) \<longrightarrow> malloc_ok \<longrightarrow>
    distinct (pending_logs_list mgr) \<longrightarrow>
    register_logtype E mgr t opsp lock malloc_ok = Inr (rv, mgr') \<longrightarrow>
      rv = M_R_SUCCESS \<and>
      known_logtypes_list mgr' = known_logtypes_list mgr @ [(t, opsp)] \<and>
      free_logs_list mgr' = free_logs_list mgr \<and>
      active_logs_list mgr' = active_logs_list mgr \<and>
      pending_logs_list mgr' = pending_logs_list mgr \<and>
      trace mgr' = trace mgr @
        alloc_events opsp
          (filter (\<lambda>d. type_tag E (log_dscs mgr d) = type_word t) (pending_logs_list mgr)) \<and>
      (\<forall>d\<in>set (pending_logs_list mgr).
         type_tag E (log_dscs mgr d) = type_word t \<longrightarrow>
           (\<exists>p f. opsp = Some p \<and> alloc (deref E p) = Some f \<and>
                  fst (f ((log_dscs mgr d)\<lparr>ops := Some p\<rparr>)) = M_R_SUCCESS \<and>
                  log_dscs mgr' d = snd (f ((log_dscs mgr d)\<lparr>ops := Some p\<rparr>)))) \<and>
      (\<forall>d. d \<notin> set (pending_logs_list mgr) \<or> type_tag E (log_dscs mgr d) \<noteq> type_word t \<longrightarrow>
           log_dscs mgr' d = log_dscs mgr d)"
    by (intro impI) (rule register_logtype_fresh)
  have D: "distinct (map fst (known_logtypes_list mgr)) \<longrightarrow>
    register_logtype E mgr t opsp lock malloc_ok = Inr (M_R_SUCCESS, mgr') \<longrightarrow>
      distinct (map fst (known_logtypes_list mgr')) \<and>
      length (filter (\<lambda>e. fst e = t) (known_logtypes_list mgr')) = 1"
    by (intro impI) (rule register_logtype_once)
  show ?thesis
    by (rule conjI [OF A conjI [OF B conjI [OF C D]]])
qed


lemma ex_registered_run:
  "register_logtype ex_env ex_unreg 2 (Some (client_ops 2)) True True =
     Inr (M_R_SUCCESS, ex_registered)"
  by (simp add: ex_registered_def register_logtype_def call_alloc_def ex_unreg_def ex_defs)

lemma ex_registered_state:
  "known_logtypes_list ex_registered = [(2, Some (client_ops 2))] \<and>
   trace ex_registered = [CallAlloc (client_ops 2) 0] \<and>
   ops (log_dscs ex_registered 0) = Some (client_ops 2) \<and>
   log (log_dscs ex_registered 0) = Some 1 \<and>
   ops (log_dscs ex_registered 1) = None"
  by (simp add: ex_registered_def register_logtype_def call_alloc_def ex_unreg_def ex_defs)

theorem register_logtype_contract_witness:
  "\<not> logtype_known 2 (known_logtypes_list ex_unreg) \<and>
   distinct (pending_logs_list ex_unreg) \<and>
   distinct (map fst (known_logtypes_list ex_unreg)) \<and>
   register_logtype ex_env ex_unreg 2 (Some (client_ops 2)) True True =
     Inr (M_R_SUCCESS, ex_registered) \<and>
   known_logtypes_list ex_registered = [(2, Some (client_ops 2))] \<and>
   length (filter (\<lambda>e. fst e = 2) (known_logtypes_list ex_registered)) = 1 \<and>
   pending_logs_list ex_registered = [0, 1] \<and>
   trace ex_registered = [CallAlloc (client_ops 2) 0] \<and>
   logtype_known 2 (known_logtypes_list ex_registered) \<and>
   register_logtype ex_env ex_registered 2 (Some (client_ops 2)) True True =
     Inr (M_R_SUCCESS, ex_registered) \<and>
   register_logtype ex_env ex_unreg 2 (Some (client_ops 2)) True False =
     Inr (M_R_NOMEMORY, ex_unreg)"
proof -
  have h1: "\<not> logtype_known 2 (known_logtypes_list ex_unreg)"
    by (simp add: ex_unreg_def)
  have h2: "distinct (pending_logs_list ex_unreg)"
    by (simp add: ex_unreg_def)
  have h3: "pending_logs_list ex_unreg = [0, 1]"
    by (simp add: ex_unreg_def)
  have h4: "logtype_known 2 (known_logtypes_list ex_registered)"
    using ex_registered_state by simp
  have h7: "distinct (map fst (known_logtypes_list ex_unreg))"
    by (simp add: ex_unreg_def)
  note fresh = register_logtype_contract
      [of 2 ex_unreg ex_env "Some (client_ops 2)" True True M_R_SUCCESS ex_registered,
       THEN conjunct2, THEN conjunct2, THEN conjunct1, rule_format,
       OF h1 TrueI h2 ex_registered_run]
  have h5: "pending_logs_list ex_registered = [0, 1]"
    using fresh [THEN conjunct2, THEN conjunct2, THEN conjunct2, THEN conjunct2,
                 THEN conjunct1] h3
    by simp
  have h6: "register_logtype ex_env ex_registered 2 (Some (client_ops 2)) True True =
     Inr (M_R_SUCCESS, ex_registered)"
    by (rule register_logtype_contract
          [of 2 ex_registered ex_env "Some (client_ops 2)" True True,
           THEN conjunct1, rule_format, OF h4])
  have h8: "length (filter (\<lambda>e. fst e = 2) (known_logtypes_list ex_registered)) = 1"
    using register_logtype_contract
          [of 2 ex_unreg ex_env "Some (client_ops 2)" True True _ ex_registered,
           THEN conjunct2, THEN conjunct2, THEN conjunct2, rule_format,
           OF h7 ex_registered_run]
    by simp
  have h9: "register_logtype ex_env ex_unreg 2 (Some (client_ops 2)) True False =
     Inr (M_R_NOMEMORY, ex_unreg)"
    using register_logtype_contract
          [of 2 ex_unreg ex_env "Some (client_ops 2)" True False,
           THEN conjunct2, THEN conjunct1, rule_format, OF h1]
    by simp
  show ?thesis
    using h1 h2 h4 h5 h6 h7 h8 h9 ex_registered_run ex_registered_state by simp
qed



subsection \<open>Allocation of a log\<close>

lemma store_tag_bits: "((a AND NOT m) OR b) AND m = b AND (m :: 64 word)"
  by (auto simp: bit_eq_iff bit_and_iff bit_or_iff bit_not_iff)

lemma tag_in_mask: "b AND NOT m = 0 \<Longrightarrow> b AND m = (b :: 64 word)"
proof -
  assume z: "b AND NOT m = 0"
  have "b = (b AND m) OR (b AND NOT m)"
    by (auto simp: bit_eq_iff bit_and_iff bit_or_iff bit_not_iff)
  then show ?thesis using z by simp
qed

lemma activate_effect:
  assumes "activate E m d t = Inr (rv, r, m')"
  shows "\<exists>p f. ops (log_dscs m d) = Some p \<and> init (deref E p) = Some f \<and>
           fst (f (log_dscs m d)) = M_R_SUCCESS \<and> rv = M_R_SUCCESS \<and> r = Some d \<and>
           m' = m\<lparr>free_logs_list := removeAll d (free_logs_list m),
                   active_logs_list := active_logs_list m @ [d],
                   log_dscs := (log_dscs m)
                     (d := (snd (f (log_dscs m d)))
                        \<lparr>generic_flags :=
                           (generic_flags (snd (f (log_dscs m d))) AND NOT (LF_TYPE_MASK E))
                             OR type_word t\<rparr>),
                   trace := trace m @
                     [CallInit p d,
                      PcmStore d
                        ((generic_flags (snd (f (log_dscs m d))) AND NOT (LF_TYPE_MASK E))
                           OR type_word t),
                      PcmBarrier]\<rparr>"
  using assms
  by (auto simp: activate_def invoke_def store_type_def list_del_init_def list_add_tail_def
           split: option.splits if_splits)

text \<open>The same, without the callback: what the lists, the trace and the flags are.\<close>

lemma activate_summary:
  assumes "activate E m d t = Inr (rv, r, m')"
  shows "\<exists>p v. ops (log_dscs m d) = Some p \<and> init (deref E p) \<noteq> None \<and>
           rv = M_R_SUCCESS \<and> r = Some d \<and>
           known_logtypes_list m' = known_logtypes_list m \<and>
           free_logs_list m' = removeAll d (free_logs_list m) \<and>
           active_logs_list m' = active_logs_list m @ [d] \<and>
           pending_logs_list m' = pending_logs_list m \<and>
           trace m' = trace m @ [CallInit p d, PcmStore d v, PcmBarrier] \<and>
           generic_flags (log_dscs m' d) = v \<and>
           v AND LF_TYPE_MASK E = type_word t AND LF_TYPE_MASK E \<and>
           (\<forall>x. x \<noteq> d \<longrightarrow> log_dscs m' x = log_dscs m x)"
proof -
  obtain p f where pf: "ops (log_dscs m d) = Some p" "init (deref E p) = Some f"
      "rv = M_R_SUCCESS" "r = Some d"
      "m' = m\<lparr>free_logs_list := removeAll d (free_logs_list m),
                   active_logs_list := active_logs_list m @ [d],
                   log_dscs := (log_dscs m)
                     (d := (snd (f (log_dscs m d)))
                        \<lparr>generic_flags :=
                           (generic_flags (snd (f (log_dscs m d))) AND NOT (LF_TYPE_MASK E))
                             OR type_word t\<rparr>),
                   trace := trace m @
                     [CallInit p d,
                      PcmStore d
                        ((generic_flags (snd (f (log_dscs m d))) AND NOT (LF_TYPE_MASK E))
                           OR type_word t),
                      PcmBarrier]\<rparr>"
    using activate_effect [OF assms] by blast
  let ?v = "(generic_flags (snd (f (log_dscs m d))) AND NOT (LF_TYPE_MASK E)) OR type_word t"
  have "ops (log_dscs m d) = Some p \<and> init (deref E p) \<noteq> None \<and>
           rv = M_R_SUCCESS \<and> r = Some d \<and>
           known_logtypes_list m' = known_logtypes_list m \<and>
           free_logs_list m' = removeAll d (free_logs_list m) \<and>
           active_logs_list m' = active_logs_list m @ [d] \<and>
           pending_logs_list m' = pending_logs_list m \<and>
           trace m' = trace m @ [CallInit p d, PcmStore d ?v, PcmBarrier] \<and>
           generic_flags (log_dscs m' d) = ?v \<and>
           ?v AND LF_TYPE_MASK E = type_word t AND LF_TYPE_MASK E \<and>
           (\<forall>x. x \<noteq> d \<longrightarrow> log_dscs m' x = log_dscs m x)"
    using pf by (simp add: store_tag_bits)
  then show ?thesis by blast
qed

lemma bind_logtype_effect:
  assumes "bind_logtype E t m d kl = Inr m1"
  shows "(map_of kl t = None \<and> m1 = m) \<or>
         (\<exists>p dsc'. map_of kl t = Some (Some p) \<and>
            m1 = m\<lparr>log_dscs := (log_dscs m)(d := dsc'), trace := trace m @ [CallAlloc p d]\<rparr>)"
proof (cases "map_of kl t")
  case None
  then show ?thesis using assms by (simp add: bind_logtype_map_of)
next
  case (Some opsp)
  then have "call_alloc E (m\<lparr>log_dscs := (log_dscs m)(d := (log_dscs m d)\<lparr>ops := opsp\<rparr>)\<rparr>) d = Inr m1"
    using assms by (simp add: bind_logtype_map_of)
  from call_alloc_effect [OF this] Some show ?thesis by blast
qed

lemma alloc_log_tagged:
  "find (\<lambda>d. type_tag E (log_dscs mgr d) = type_word t) (free_logs_list mgr) = Some d \<Longrightarrow>
     alloc_log E mgr t = activate E mgr d t"
  by (simp add: alloc_log_def scan_free_find)

lemma alloc_log_untyped:
  "find (\<lambda>d. type_tag E (log_dscs mgr d) = type_word t) (free_logs_list mgr) = None \<Longrightarrow>
   find (\<lambda>d. type_tag E (log_dscs mgr d) = LF_TYPE_FREE E) (free_logs_list mgr) = Some d \<Longrightarrow>
     alloc_log E mgr t =
       (case bind_logtype E t mgr d (known_logtypes_list mgr) of
          Inl f \<Rightarrow> Inl f
        | Inr mgr' \<Rightarrow>
            (if ops (log_dscs mgr' d) = None then Inr (M_R_FAILURE, None, mgr')
             else activate E mgr' d t))"
  by (simp add: alloc_log_def scan_free_find)

lemma m_logmgr_alloc_log_Inr:
  assumes "logmgr P = Some mgr" and "m_logmgr_alloc_log E P t = Inr (rv, r, P')"
  shows "\<exists>mgr'. alloc_log E mgr t = Inr (rv, r, mgr') \<and> P' = P\<lparr>logmgr := Some mgr'\<rparr>"
  using assms
  by (cases "alloc_log E mgr t") (auto simp: m_logmgr_alloc_log_def)

lemma activate_known:
  "activate E (m\<lparr>known_logtypes_list := kl\<rparr>) d t =
     (case activate E m d t of
        Inl f \<Rightarrow> Inl f
      | Inr x \<Rightarrow> Inr (fst x, fst (snd x), (snd (snd x))\<lparr>known_logtypes_list := kl\<rparr>))"
  by (simp add: activate_def invoke_def store_type_def split: option.splits)

lemma alloc_log_tagged_known:
  assumes "find (\<lambda>d. type_tag E (log_dscs mgr d) = type_word t) (free_logs_list mgr) = Some d"
  shows "alloc_log E (mgr\<lparr>known_logtypes_list := kl\<rparr>) t =
     (case alloc_log E mgr t of
        Inl f \<Rightarrow> Inl f
      | Inr x \<Rightarrow> Inr (fst x, fst (snd x), (snd (snd x))\<lparr>known_logtypes_list := kl\<rparr>))"
proof -
  have "alloc_log E (mgr\<lparr>known_logtypes_list := kl\<rparr>) t =
          activate E (mgr\<lparr>known_logtypes_list := kl\<rparr>) d t"
    using assms by (intro alloc_log_tagged) simp
  then show ?thesis
    using alloc_log_tagged [OF assms] by (simp add: activate_known)
qed

lemma alloc_log_success:
  assumes "alloc_log E mgr t = Inr (M_R_SUCCESS, r, mgr')"
  shows "\<exists>d p v pre.
           r = Some d \<and> d \<in> set (free_logs_list mgr) \<and>
           free_logs_list mgr' = removeAll d (free_logs_list mgr) \<and>
           active_logs_list mgr' = active_logs_list mgr @ [d] \<and>
           pending_logs_list mgr' = pending_logs_list mgr \<and>
           init (deref E p) \<noteq> None \<and>
           trace mgr' = trace mgr @ pre @ [CallInit p d, PcmStore d v, PcmBarrier] \<and>
           (pre = [] \<or> (\<exists>q. pre = [CallAlloc q d])) \<and>
           generic_flags (log_dscs mgr' d) = v \<and>
           v AND LF_TYPE_MASK E = type_word t AND LF_TYPE_MASK E"
proof (cases "find (\<lambda>d. type_tag E (log_dscs mgr d) = type_word t) (free_logs_list mgr)")
  case (Some d)
  have act: "activate E mgr d t = Inr (M_R_SUCCESS, r, mgr')"
    using assms alloc_log_tagged [OF Some] by simp
  obtain p v where s: "init (deref E p) \<noteq> None" "r = Some d"
      "free_logs_list mgr' = removeAll d (free_logs_list mgr)"
      "active_logs_list mgr' = active_logs_list mgr @ [d]"
      "pending_logs_list mgr' = pending_logs_list mgr"
      "trace mgr' = trace mgr @ [CallInit p d, PcmStore d v, PcmBarrier]"
      "generic_flags (log_dscs mgr' d) = v"
      "v AND LF_TYPE_MASK E = type_word t AND LF_TYPE_MASK E"
    using activate_summary [OF act] by blast
  have "d \<in> set (free_logs_list mgr)" using find_Some_set [OF Some] by simp
  then have "r = Some d \<and> d \<in> set (free_logs_list mgr) \<and>
           free_logs_list mgr' = removeAll d (free_logs_list mgr) \<and>
           active_logs_list mgr' = active_logs_list mgr @ [d] \<and>
           pending_logs_list mgr' = pending_logs_list mgr \<and>
           init (deref E p) \<noteq> None \<and>
           trace mgr' = trace mgr @ [] @ [CallInit p d, PcmStore d v, PcmBarrier] \<and>
           ([] = [] \<or> (\<exists>q. [] = [CallAlloc q d])) \<and>
           generic_flags (log_dscs mgr' d) = v \<and>
           v AND LF_TYPE_MASK E = type_word t AND LF_TYPE_MASK E"
    using s by simp
  then show ?thesis by blast
next
  case None
  show ?thesis
  proof (cases "find (\<lambda>d. type_tag E (log_dscs mgr d) = LF_TYPE_FREE E) (free_logs_list mgr)")
    case None2: None
    then show ?thesis
      using assms None by (simp add: alloc_log_def scan_free_find)
  next
    case (Some d)
    have din: "d \<in> set (free_logs_list mgr)" using find_Some_set [OF Some] by simp
    obtain m1 where m1: "bind_logtype E t mgr d (known_logtypes_list mgr) = Inr m1"
        "activate E m1 d t = Inr (M_R_SUCCESS, r, mgr')"
      using assms alloc_log_untyped [OF None Some]
      by (auto split: sum.splits if_splits)
    obtain p v where s: "init (deref E p) \<noteq> None" "r = Some d"
        "free_logs_list mgr' = removeAll d (free_logs_list m1)"
        "active_logs_list mgr' = active_logs_list m1 @ [d]"
        "pending_logs_list mgr' = pending_logs_list m1"
        "trace mgr' = trace m1 @ [CallInit p d, PcmStore d v, PcmBarrier]"
        "generic_flags (log_dscs mgr' d) = v"
        "v AND LF_TYPE_MASK E = type_word t AND LF_TYPE_MASK E"
      using activate_summary [OF m1(2)] by blast
    from bind_logtype_effect [OF m1(1)]
    obtain pre where pre: "trace m1 = trace mgr @ pre" "pre = [] \<or> (\<exists>q. pre = [CallAlloc q d])"
        "free_logs_list m1 = free_logs_list mgr" "active_logs_list m1 = active_logs_list mgr"
        "pending_logs_list m1 = pending_logs_list mgr"
      by (elim disjE exE conjE) auto
    have "r = Some d \<and> d \<in> set (free_logs_list mgr) \<and>
           free_logs_list mgr' = removeAll d (free_logs_list mgr) \<and>
           active_logs_list mgr' = active_logs_list mgr @ [d] \<and>
           pending_logs_list mgr' = pending_logs_list mgr \<and>
           init (deref E p) \<noteq> None \<and>
           trace mgr' = trace mgr @ pre @ [CallInit p d, PcmStore d v, PcmBarrier] \<and>
           (pre = [] \<or> (\<exists>q. pre = [CallAlloc q d])) \<and>
           generic_flags (log_dscs mgr' d) = v \<and>
           v AND LF_TYPE_MASK E = type_word t AND LF_TYPE_MASK E"
      using s pre din by simp
    then show ?thesis by blast
  qed
qed

text \<open>
  C5. A call of \<^verbatim>\<open>m_logmgr_alloc_log\<close> that returns \<^verbatim>\<open>M_R_SUCCESS\<close> has taken the
  descriptor it returns off the free list and put it at the tail of the active list; it
  has called \<^verbatim>\<open>init\<close>, then stored the flags with the type or-ed in, then issued the
  barrier, and these are the last three events of the call (before them there is at most
  the call of \<^verbatim>\<open>alloc\<close> on the same descriptor). The tag bits of the stored flags are
  those of the type, so the persisted tag is the type whenever the type lies within
  \<^verbatim>\<open>LF_TYPE_MASK\<close>.
\<close>

theorem alloc_success_activates:
  assumes "logmgr P = Some mgr"
    and "m_logmgr_alloc_log E P t = Inr (M_R_SUCCESS, r, P')"
  shows "\<exists>d mgr'. r = Some d \<and> logmgr P' = Some mgr' \<and>
           d \<in> set (free_logs_list mgr) \<and> d \<notin> set (free_logs_list mgr') \<and>
           free_logs_list mgr' = removeAll d (free_logs_list mgr) \<and>
           active_logs_list mgr' = active_logs_list mgr @ [d] \<and>
           pending_logs_list mgr' = pending_logs_list mgr \<and>
           (\<exists>p v pre.
              init (deref E p) \<noteq> None \<and>
              trace mgr' = trace mgr @ pre @ [CallInit p d, PcmStore d v, PcmBarrier] \<and>
              (pre = [] \<or> (\<exists>q. pre = [CallAlloc q d])) \<and>
              generic_flags (log_dscs mgr' d) = v \<and>
              v AND LF_TYPE_MASK E = type_word t AND LF_TYPE_MASK E) \<and>
           (type_word t AND NOT (LF_TYPE_MASK E) = 0 \<longrightarrow>
              type_tag E (log_dscs mgr' d) = type_word t)"
proof -
  obtain mgr' where m: "alloc_log E mgr t = Inr (M_R_SUCCESS, r, mgr')"
      "P' = P\<lparr>logmgr := Some mgr'\<rparr>"
    using m_logmgr_alloc_log_Inr [OF assms] by blast
  obtain d p v pre where s: "r = Some d" "d \<in> set (free_logs_list mgr)"
      "free_logs_list mgr' = removeAll d (free_logs_list mgr)"
      "active_logs_list mgr' = active_logs_list mgr @ [d]"
      "pending_logs_list mgr' = pending_logs_list mgr"
      "init (deref E p) \<noteq> None"
      "trace mgr' = trace mgr @ pre @ [CallInit p d, PcmStore d v, PcmBarrier]"
      "pre = [] \<or> (\<exists>q. pre = [CallAlloc q d])"
      "generic_flags (log_dscs mgr' d) = v"
      "v AND LF_TYPE_MASK E = type_word t AND LF_TYPE_MASK E"
    using alloc_log_success [OF m(1)] by blast
  have ev: "\<exists>p v pre.
              init (deref E p) \<noteq> None \<and>
              trace mgr' = trace mgr @ pre @ [CallInit p d, PcmStore d v, PcmBarrier] \<and>
              (pre = [] \<or> (\<exists>q. pre = [CallAlloc q d])) \<and>
              generic_flags (log_dscs mgr' d) = v \<and>
              v AND LF_TYPE_MASK E = type_word t AND LF_TYPE_MASK E"
    using s(6-10) by blast
  have tag: "type_tag E (log_dscs mgr' d) = type_word t"
    if "type_word t AND NOT (LF_TYPE_MASK E) = 0"
    using s(9,10) tag_in_mask [OF that] by (simp add: type_tag_def)
  have "r = Some d \<and> logmgr P' = Some mgr' \<and>
           d \<in> set (free_logs_list mgr) \<and> d \<notin> set (free_logs_list mgr') \<and>
           free_logs_list mgr' = removeAll d (free_logs_list mgr) \<and>
           active_logs_list mgr' = active_logs_list mgr @ [d] \<and>
           pending_logs_list mgr' = pending_logs_list mgr \<and>
           (\<exists>p v pre.
              init (deref E p) \<noteq> None \<and>
              trace mgr' = trace mgr @ pre @ [CallInit p d, PcmStore d v, PcmBarrier] \<and>
              (pre = [] \<or> (\<exists>q. pre = [CallAlloc q d])) \<and>
              generic_flags (log_dscs mgr' d) = v \<and>
              v AND LF_TYPE_MASK E = type_word t AND LF_TYPE_MASK E) \<and>
           (type_word t AND NOT (LF_TYPE_MASK E) = 0 \<longrightarrow>
              type_tag E (log_dscs mgr' d) = type_word t)"
    using s(1-5) m(2) ev tag by simp
  then show ?thesis by blast
qed

lemma ex_alloc_untyped_run:
  "m_logmgr_alloc_log ex_env \<lparr>logmgr = Some ex_one_untyped, logmgr_initialized = True\<rparr> 5 =
     Inr (M_R_SUCCESS, Some 1, ex_alloc ex_one_untyped 5)"
  by (simp add: ex_alloc_def m_logmgr_alloc_log_def alloc_log_def scan_free_def activate_def
        store_type_def call_alloc_def ex_one_untyped_def ex_defs)

lemma ex_alloc_untyped_trace:
  "trace (the (logmgr (ex_alloc ex_one_untyped 5))) =
     [CallAlloc (client_ops 5) 1, CallInit (client_ops 5) 1, PcmStore 1 13, PcmBarrier]"
  by (simp add: ex_alloc_def m_logmgr_alloc_log_def alloc_log_def scan_free_def activate_def
        store_type_def call_alloc_def ex_one_untyped_def ex_defs)

theorem alloc_success_activates_witness:
  "m_logmgr_alloc_log ex_env \<lparr>logmgr = Some ex_one_untyped, logmgr_initialized = True\<rparr> 5 =
     Inr (M_R_SUCCESS, Some 1, ex_alloc ex_one_untyped 5) \<and>
   type_word 5 AND NOT (LF_TYPE_MASK ex_env) = 0 \<and>
   free_logs_list ex_one_untyped = [1] \<and>
   free_logs_list (the (logmgr (ex_alloc ex_one_untyped 5))) = [] \<and>
   active_logs_list (the (logmgr (ex_alloc ex_one_untyped 5))) = [1] \<and>
   type_tag ex_env (log_dscs (the (logmgr (ex_alloc ex_one_untyped 5))) 1) = 5 \<and>
   trace (the (logmgr (ex_alloc ex_one_untyped 5))) =
     [CallAlloc (client_ops 5) 1, CallInit (client_ops 5) 1, PcmStore 1 13, PcmBarrier]"
proof -
  have h1: "logmgr \<lparr>logmgr = Some ex_one_untyped, logmgr_initialized = True\<rparr> =
              Some ex_one_untyped"
    by simp
  have h2: "type_word 5 AND NOT (LF_TYPE_MASK ex_env) = 0"
    by (simp add: ex_env_def type_word_def)
  have h3: "free_logs_list ex_one_untyped = [1] \<and> active_logs_list ex_one_untyped = []"
    by (simp add: ex_one_untyped_def)
  obtain d mgr' where w: "Some 1 = Some d" "logmgr (ex_alloc ex_one_untyped 5) = Some mgr'"
      "free_logs_list mgr' = removeAll d (free_logs_list ex_one_untyped)"
      "active_logs_list mgr' = active_logs_list ex_one_untyped @ [d]"
      "type_word 5 AND NOT (LF_TYPE_MASK ex_env) = 0 \<longrightarrow>
         type_tag ex_env (log_dscs mgr' d) = type_word 5"
    using alloc_success_activates [OF h1 ex_alloc_untyped_run] by blast
  have d: "d = 1" using w(1) by simp
  have h5: "type_word 5 = 5"
    by (simp add: type_word_def)
  have "free_logs_list (the (logmgr (ex_alloc ex_one_untyped 5))) = []"
    using w(2,3) h3 d by simp
  moreover have "active_logs_list (the (logmgr (ex_alloc ex_one_untyped 5))) = [1]"
    using w(2,4) h3 d by simp
  moreover have "type_tag ex_env (log_dscs (the (logmgr (ex_alloc ex_one_untyped 5))) 1) = 5"
    using w(2,5) h2 h5 d by simp
  ultimately show ?thesis
    using h2 h3 ex_alloc_untyped_run ex_alloc_untyped_trace by simp
qed

lemma alloc_tagged_result:
  assumes P: "logmgr P = Some mgr"
    and tagged: "find (\<lambda>d. type_tag E (log_dscs mgr d) = type_word t) (free_logs_list mgr) = Some d"
    and run: "m_logmgr_alloc_log E P t = Inr (rv, r, P')"
  shows "rv = M_R_SUCCESS \<and> r = Some d \<and>
         (\<exists>mgr' p v. logmgr P' = Some mgr' \<and> ops (log_dscs mgr d) = Some p \<and>
            trace mgr' = trace mgr @ [CallInit p d, PcmStore d v, PcmBarrier])"
proof -
  obtain mgr' where m: "alloc_log E mgr t = Inr (rv, r, mgr')" "P' = P\<lparr>logmgr := Some mgr'\<rparr>"
    using m_logmgr_alloc_log_Inr [OF P run] by blast
  have "activate E mgr d t = Inr (rv, r, mgr')"
    using m(1) alloc_log_tagged [OF tagged] by simp
  from activate_summary [OF this]
  obtain p v where s: "ops (log_dscs mgr d) = Some p" "rv = M_R_SUCCESS" "r = Some d"
      "trace mgr' = trace mgr @ [CallInit p d, PcmStore d v, PcmBarrier]"
    by blast
  have "logmgr P' = Some mgr' \<and> ops (log_dscs mgr d) = Some p \<and>
            trace mgr' = trace mgr @ [CallInit p d, PcmStore d v, PcmBarrier]"
    using s m(2) by simp
  then show ?thesis
    using s(2,3) by blast
qed

lemma alloc_untyped_result:
  assumes P: "logmgr P = Some mgr"
    and notag: "find (\<lambda>d. type_tag E (log_dscs mgr d) = type_word t) (free_logs_list mgr) = None"
    and untyped: "find (\<lambda>d. type_tag E (log_dscs mgr d) = LF_TYPE_FREE E) (free_logs_list mgr) = Some d"
    and reg: "map_of (known_logtypes_list mgr) t = Some opsp"
    and run: "m_logmgr_alloc_log E P t = Inr (rv, r, P')"
  shows "\<exists>mgr' p rest. logmgr P' = Some mgr' \<and> opsp = Some p \<and> alloc (deref E p) \<noteq> None \<and>
           trace mgr' = trace mgr @ CallAlloc p d # rest \<and>
           (rv = M_R_SUCCESS \<longrightarrow>
              r = Some d \<and> (\<exists>q v. rest = [CallInit q d, PcmStore d v, PcmBarrier]))"
proof -
  obtain mgr' where m: "alloc_log E mgr t = Inr (rv, r, mgr')" "P' = P\<lparr>logmgr := Some mgr'\<rparr>"
    using m_logmgr_alloc_log_Inr [OF P run] by blast
  let ?m0 = "mgr\<lparr>log_dscs := (log_dscs mgr)(d := (log_dscs mgr d)\<lparr>ops := opsp\<rparr>)\<rparr>"
  have unfold: "alloc_log E mgr t =
       (case call_alloc E ?m0 d of
          Inl f \<Rightarrow> Inl f
        | Inr m1 \<Rightarrow>
            (if ops (log_dscs m1 d) = None then Inr (M_R_FAILURE, None, m1)
             else activate E m1 d t))"
    using alloc_log_untyped [OF notag untyped] reg by (simp add: bind_logtype_map_of)
  obtain m1 where m1: "call_alloc E ?m0 d = Inr m1"
    using m(1) unfold by (cases "call_alloc E ?m0 d") simp_all
  obtain p f where pf: "opsp = Some p" "alloc (deref E p) = Some f"
      "fst (f ((log_dscs mgr d)\<lparr>ops := opsp\<rparr>)) = M_R_SUCCESS"
      "m1 = mgr\<lparr>log_dscs := (log_dscs mgr)(d := snd (f ((log_dscs mgr d)\<lparr>ops := opsp\<rparr>))),
                 trace := trace mgr @ [CallAlloc p d]\<rparr>"
    using call_alloc_effect [OF m1] by blast
  have tr1: "trace m1 = trace mgr @ [CallAlloc p d]"
    using pf(4) by simp
  have "\<exists>rest. trace mgr' = trace mgr @ CallAlloc p d # rest \<and>
           (rv = M_R_SUCCESS \<longrightarrow>
              r = Some d \<and> (\<exists>q v. rest = [CallInit q d, PcmStore d v, PcmBarrier]))"
  proof (cases "ops (log_dscs m1 d) = None")
    case True
    then have "rv = M_R_FAILURE \<and> mgr' = m1"
      using m(1) unfold m1 by simp
    then have "trace mgr' = trace mgr @ CallAlloc p d # [] \<and>
           (rv = M_R_SUCCESS \<longrightarrow>
              r = Some d \<and> (\<exists>q v. [] = [CallInit q d, PcmStore d v, PcmBarrier]))"
      using tr1 by simp
    then show ?thesis by blast
  next
    case False
    then have "activate E m1 d t = Inr (rv, r, mgr')"
      using m(1) unfold m1 by (auto split: if_splits)
    from activate_summary [OF this]
    obtain q v where s: "r = Some d"
        "trace mgr' = trace m1 @ [CallInit q d, PcmStore d v, PcmBarrier]"
      by blast
    have "trace mgr' = trace mgr @ CallAlloc p d # [CallInit q d, PcmStore d v, PcmBarrier] \<and>
           (rv = M_R_SUCCESS \<longrightarrow>
              r = Some d \<and> (\<exists>q' v'. [CallInit q d, PcmStore d v, PcmBarrier] =
                                     [CallInit q' d, PcmStore d v', PcmBarrier]))"
      using s tr1 by simp
    then show ?thesis by blast
  qed
  then obtain rest where rest: "trace mgr' = trace mgr @ CallAlloc p d # rest"
      "rv = M_R_SUCCESS \<longrightarrow>
              r = Some d \<and> (\<exists>q v. rest = [CallInit q d, PcmStore d v, PcmBarrier])"
    by blast
  have "logmgr P' = Some mgr' \<and> opsp = Some p \<and> alloc (deref E p) \<noteq> None \<and>
           trace mgr' = trace mgr @ CallAlloc p d # rest \<and>
           (rv = M_R_SUCCESS \<longrightarrow>
              r = Some d \<and> (\<exists>q v. rest = [CallInit q d, PcmStore d v, PcmBarrier]))"
    using m(2) pf(1,2) rest by simp
  then show ?thesis by blast
qed

text \<open>
  C3. The scan of the free list yields the first descriptor whose tag is the requested
  type and the first whose tag is \<^verbatim>\<open>LF_TYPE_FREE\<close>. When there is a descriptor of the
  type, the outcome of the allocation does not depend on the list of known types, a call
  that returns has returned that descriptor with \<^verbatim>\<open>M_R_SUCCESS\<close>, and it has invoked
  \<^verbatim>\<open>init\<close> through the operations the descriptor already had and no \<^verbatim>\<open>alloc\<close>. When
  there is none but there is an untyped one and the type has an entry in the list of
  known types, a call that returns has first bound the operations of that entry and
  invoked their \<^verbatim>\<open>alloc\<close> on the untyped descriptor.
\<close>

theorem alloc_prefers_tagged:
  assumes "logmgr P = Some mgr"
  shows
   "foldl (scan_free E mgr t) (None, None) (free_logs_list mgr) =
      (find (\<lambda>d. type_tag E (log_dscs mgr d) = type_word t) (free_logs_list mgr),
       find (\<lambda>d. type_tag E (log_dscs mgr d) = LF_TYPE_FREE E) (free_logs_list mgr)) \<and>
    (find (\<lambda>d. type_tag E (log_dscs mgr d) = type_word t) (free_logs_list mgr) = Some d \<longrightarrow>
       (\<forall>kl. alloc_log E (mgr\<lparr>known_logtypes_list := kl\<rparr>) t =
          (case alloc_log E mgr t of
             Inl f \<Rightarrow> Inl f
           | Inr x \<Rightarrow> Inr (fst x, fst (snd x), (snd (snd x))\<lparr>known_logtypes_list := kl\<rparr>))) \<and>
       (m_logmgr_alloc_log E P t = Inr (rv, r, P') \<longrightarrow>
          rv = M_R_SUCCESS \<and> r = Some d \<and>
          (\<exists>mgr' p v. logmgr P' = Some mgr' \<and> ops (log_dscs mgr d) = Some p \<and>
             trace mgr' = trace mgr @ [CallInit p d, PcmStore d v, PcmBarrier]))) \<and>
    (find (\<lambda>d. type_tag E (log_dscs mgr d) = type_word t) (free_logs_list mgr) = None \<longrightarrow>
     find (\<lambda>d. type_tag E (log_dscs mgr d) = LF_TYPE_FREE E) (free_logs_list mgr) = Some d \<longrightarrow>
     map_of (known_logtypes_list mgr) t = Some opsp \<longrightarrow>
     m_logmgr_alloc_log E P t = Inr (rv, r, P') \<longrightarrow>
       (\<exists>mgr' p rest. logmgr P' = Some mgr' \<and> opsp = Some p \<and> alloc (deref E p) \<noteq> None \<and>
           trace mgr' = trace mgr @ CallAlloc p d # rest \<and>
           (rv = M_R_SUCCESS \<longrightarrow>
              r = Some d \<and> (\<exists>q v. rest = [CallInit q d, PcmStore d v, PcmBarrier]))))"
proof -
  have A: "foldl (scan_free E mgr t) (None, None) (free_logs_list mgr) =
      (find (\<lambda>d. type_tag E (log_dscs mgr d) = type_word t) (free_logs_list mgr),
       find (\<lambda>d. type_tag E (log_dscs mgr d) = LF_TYPE_FREE E) (free_logs_list mgr))"
    by (rule scan_free_find)
  have B: "find (\<lambda>d. type_tag E (log_dscs mgr d) = type_word t) (free_logs_list mgr) = Some d \<longrightarrow>
       (\<forall>kl. alloc_log E (mgr\<lparr>known_logtypes_list := kl\<rparr>) t =
          (case alloc_log E mgr t of
             Inl f \<Rightarrow> Inl f
           | Inr x \<Rightarrow> Inr (fst x, fst (snd x), (snd (snd x))\<lparr>known_logtypes_list := kl\<rparr>))) \<and>
       (m_logmgr_alloc_log E P t = Inr (rv, r, P') \<longrightarrow>
          rv = M_R_SUCCESS \<and> r = Some d \<and>
          (\<exists>mgr' p v. logmgr P' = Some mgr' \<and> ops (log_dscs mgr d) = Some p \<and>
             trace mgr' = trace mgr @ [CallInit p d, PcmStore d v, PcmBarrier]))"
  proof (intro impI conjI allI)
    fix kl
    assume "find (\<lambda>d. type_tag E (log_dscs mgr d) = type_word t) (free_logs_list mgr) = Some d"
    then show "alloc_log E (mgr\<lparr>known_logtypes_list := kl\<rparr>) t =
          (case alloc_log E mgr t of
             Inl f \<Rightarrow> Inl f
           | Inr x \<Rightarrow> Inr (fst x, fst (snd x), (snd (snd x))\<lparr>known_logtypes_list := kl\<rparr>))"
      by (rule alloc_log_tagged_known)
  next
    assume "find (\<lambda>d. type_tag E (log_dscs mgr d) = type_word t) (free_logs_list mgr) = Some d"
      "m_logmgr_alloc_log E P t = Inr (rv, r, P')"
    from alloc_tagged_result [OF assms this]
    show "rv = M_R_SUCCESS" "r = Some d"
      "\<exists>mgr' p v. logmgr P' = Some mgr' \<and> ops (log_dscs mgr d) = Some p \<and>
             trace mgr' = trace mgr @ [CallInit p d, PcmStore d v, PcmBarrier]"
      by simp_all
  qed
  have C: "find (\<lambda>d. type_tag E (log_dscs mgr d) = type_word t) (free_logs_list mgr) = None \<longrightarrow>
     find (\<lambda>d. type_tag E (log_dscs mgr d) = LF_TYPE_FREE E) (free_logs_list mgr) = Some d \<longrightarrow>
     map_of (known_logtypes_list mgr) t = Some opsp \<longrightarrow>
     m_logmgr_alloc_log E P t = Inr (rv, r, P') \<longrightarrow>
       (\<exists>mgr' p rest. logmgr P' = Some mgr' \<and> opsp = Some p \<and> alloc (deref E p) \<noteq> None \<and>
           trace mgr' = trace mgr @ CallAlloc p d # rest \<and>
           (rv = M_R_SUCCESS \<longrightarrow>
              r = Some d \<and> (\<exists>q v. rest = [CallInit q d, PcmStore d v, PcmBarrier])))"
    by (intro impI) (rule alloc_untyped_result [OF assms])
  show ?thesis
    by (rule conjI [OF A conjI [OF B C]])
qed


lemma ex_two_free_find:
  "find (\<lambda>d. type_tag ex_env (log_dscs ex_two_free d) = type_word 5)
     (free_logs_list ex_two_free) = Some 0 \<and>
   find (\<lambda>d. type_tag ex_env (log_dscs ex_two_free d) = LF_TYPE_FREE ex_env)
     (free_logs_list ex_two_free) = Some 1 \<and>
   ops (log_dscs ex_two_free 0) = Some (client_ops 5) \<and>
   trace ex_two_free = []"
  by (simp add: ex_two_free_def ex_defs)

lemma ex_two_free_run:
  "m_logmgr_alloc_log ex_env \<lparr>logmgr = Some ex_two_free, logmgr_initialized = True\<rparr> 5 =
     Inr (M_R_SUCCESS, Some 0, ex_alloc ex_two_free 5)"
  by (simp add: ex_alloc_def m_logmgr_alloc_log_def alloc_log_def scan_free_def activate_def
        store_type_def ex_two_free_def ex_defs)

lemma ex_one_untyped_find:
  "find (\<lambda>d. type_tag ex_env (log_dscs ex_one_untyped d) = type_word 5)
     (free_logs_list ex_one_untyped) = None \<and>
   find (\<lambda>d. type_tag ex_env (log_dscs ex_one_untyped d) = LF_TYPE_FREE ex_env)
     (free_logs_list ex_one_untyped) = Some 1 \<and>
   map_of (known_logtypes_list ex_one_untyped) 5 = Some (Some (client_ops 5)) \<and>
   trace ex_one_untyped = []"
  by (simp add: ex_one_untyped_def ex_defs)

theorem alloc_prefers_tagged_witness:
  "find (\<lambda>d. type_tag ex_env (log_dscs ex_two_free d) = type_word 5)
     (free_logs_list ex_two_free) = Some 0 \<and>
   find (\<lambda>d. type_tag ex_env (log_dscs ex_two_free d) = LF_TYPE_FREE ex_env)
     (free_logs_list ex_two_free) = Some 1 \<and>
   foldl (scan_free ex_env ex_two_free 5) (None, None) (free_logs_list ex_two_free) =
     (Some 0, Some 1) \<and>
   m_logmgr_alloc_log ex_env \<lparr>logmgr = Some ex_two_free, logmgr_initialized = True\<rparr> 5 =
     Inr (M_R_SUCCESS, Some 0, ex_alloc ex_two_free 5) \<and>
   (\<exists>v. trace (the (logmgr (ex_alloc ex_two_free 5))) =
          [CallInit (client_ops 5) 0, PcmStore 0 v, PcmBarrier]) \<and>
   find (\<lambda>d. type_tag ex_env (log_dscs ex_one_untyped d) = type_word 5)
     (free_logs_list ex_one_untyped) = None \<and>
   find (\<lambda>d. type_tag ex_env (log_dscs ex_one_untyped d) = LF_TYPE_FREE ex_env)
     (free_logs_list ex_one_untyped) = Some 1 \<and>
   map_of (known_logtypes_list ex_one_untyped) 5 = Some (Some (client_ops 5)) \<and>
   m_logmgr_alloc_log ex_env \<lparr>logmgr = Some ex_one_untyped, logmgr_initialized = True\<rparr> 5 =
     Inr (M_R_SUCCESS, Some 1, ex_alloc ex_one_untyped 5) \<and>
   (\<exists>q v. trace (the (logmgr (ex_alloc ex_one_untyped 5))) =
          [CallAlloc (client_ops 5) 1, CallInit q 1, PcmStore 1 v, PcmBarrier])"
proof -
  have h: "logmgr \<lparr>logmgr = Some ex_two_free, logmgr_initialized = True\<rparr> = Some ex_two_free"
    by simp
  note t = alloc_prefers_tagged
      [OF h, of ex_env 5 0 M_R_SUCCESS "Some 0" "ex_alloc ex_two_free 5"]
  have scan: "foldl (scan_free ex_env ex_two_free 5) (None, None) (free_logs_list ex_two_free) =
     (Some 0, Some 1)"
    using t [THEN conjunct1] ex_two_free_find by simp
  obtain mgr' p v where w: "logmgr (ex_alloc ex_two_free 5) = Some mgr'"
      "ops (log_dscs ex_two_free 0) = Some p"
      "trace mgr' = trace ex_two_free @ [CallInit p 0, PcmStore 0 v, PcmBarrier]"
    using t [THEN conjunct2, THEN conjunct1, rule_format,
             OF ex_two_free_find [THEN conjunct1], THEN conjunct2, rule_format,
             OF ex_two_free_run]
    by blast
  have "trace (the (logmgr (ex_alloc ex_two_free 5))) =
          [CallInit (client_ops 5) 0, PcmStore 0 v, PcmBarrier]"
    using w ex_two_free_find by simp
  then have tagged: "\<exists>v. trace (the (logmgr (ex_alloc ex_two_free 5))) =
          [CallInit (client_ops 5) 0, PcmStore 0 v, PcmBarrier]"
    by blast
  have h': "logmgr \<lparr>logmgr = Some ex_one_untyped, logmgr_initialized = True\<rparr> =
              Some ex_one_untyped"
    by simp
  obtain mgr2 p2 rest where u: "logmgr (ex_alloc ex_one_untyped 5) = Some mgr2"
      "Some (client_ops 5) = Some p2"
      "trace mgr2 = trace ex_one_untyped @ CallAlloc p2 1 # rest"
      "M_R_SUCCESS = M_R_SUCCESS \<longrightarrow>
         Some 1 = Some 1 \<and> (\<exists>q v. rest = [CallInit q 1, PcmStore 1 v, PcmBarrier])"
    using alloc_prefers_tagged
      [OF h', where E = ex_env and t = 5 and d = 1 and opsp = "Some (client_ops 5)"
         and rv = M_R_SUCCESS and r = "Some 1" and P' = "ex_alloc ex_one_untyped 5",
       THEN conjunct2, THEN conjunct2, rule_format,
       OF ex_one_untyped_find [THEN conjunct1]
          ex_one_untyped_find [THEN conjunct2, THEN conjunct1]
          ex_one_untyped_find [THEN conjunct2, THEN conjunct2, THEN conjunct1]
          ex_alloc_untyped_run]
    by blast
  obtain q v' where rest: "rest = [CallInit q 1, PcmStore 1 v', PcmBarrier]"
    using u(4) by blast
  have "trace (the (logmgr (ex_alloc ex_one_untyped 5))) =
          [CallAlloc (client_ops 5) 1, CallInit q 1, PcmStore 1 v', PcmBarrier]"
    using u(1,2,3) rest ex_one_untyped_find by simp
  then have untyped: "\<exists>q v. trace (the (logmgr (ex_alloc ex_one_untyped 5))) =
          [CallAlloc (client_ops 5) 1, CallInit q 1, PcmStore 1 v, PcmBarrier]"
    by blast
  show ?thesis
    using scan tagged untyped ex_two_free_find ex_two_free_run ex_one_untyped_find
      ex_alloc_untyped_run
    by simp
qed


subsection \<open>The partition of the slots\<close>

lemma create_dsc_foldl:
  "free_logs_list (foldl (create_dsc E nvmd) mgr [0..<n]) =
     free_logs_list mgr @ filter (\<lambda>i. nvmd i AND LF_TYPE_MASK E = LF_TYPE_FREE E) [0..<n] \<and>
   pending_logs_list (foldl (create_dsc E nvmd) mgr [0..<n]) =
     pending_logs_list mgr @ filter (\<lambda>i. nvmd i AND LF_TYPE_MASK E \<noteq> LF_TYPE_FREE E) [0..<n] \<and>
   active_logs_list (foldl (create_dsc E nvmd) mgr [0..<n]) = active_logs_list mgr"
  by (induction n) (simp_all add: create_dsc_def list_add_tail_def)

lemma partition_filter:
  "distinct (filter P [0..<n] @ filter (\<lambda>i. \<not> P i) [0..<n]) \<and>
   set (filter P [0..<n] @ filter (\<lambda>i. \<not> P i) [0..<n]) = {0..<n}"
  by auto

lemma create_log_pool_partition:
  assumes "create_log_pool E nvmd ok INIT_LIST_HEADS = Inr mgr"
  shows "partition_inv mgr []"
proof -
  have mgr: "mgr = foldl (create_dsc E nvmd) INIT_LIST_HEADS [0..<LOG_NUM]"
    using assms by (simp add: create_log_pool_def split: if_splits)
  have "free_logs_list mgr =
          filter (\<lambda>i. nvmd i AND LF_TYPE_MASK E = LF_TYPE_FREE E) [0..<LOG_NUM]"
    and "pending_logs_list mgr =
          filter (\<lambda>i. nvmd i AND LF_TYPE_MASK E \<noteq> LF_TYPE_FREE E) [0..<LOG_NUM]"
    and "active_logs_list mgr = []"
    unfolding mgr using create_dsc_foldl [of E nvmd INIT_LIST_HEADS LOG_NUM]
    by (simp_all add: INIT_LIST_HEADS_def)
  then show ?thesis
    using partition_filter [of "\<lambda>i. nvmd i AND LF_TYPE_MASK E = LF_TYPE_FREE E" LOG_NUM]
    by (simp add: partition_inv_def)
qed

lemma register_logtype_lists:
  assumes "register_logtype E mgr t opsp lock ok = Inr (rv, mgr')"
  shows "free_logs_list mgr' = free_logs_list mgr \<and>
         active_logs_list mgr' = active_logs_list mgr \<and>
         pending_logs_list mgr' = pending_logs_list mgr"
proof (cases "logtype_known t (known_logtypes_list mgr) \<or> \<not> ok")
  case True
  then have "mgr' = mgr"
    using assms by (auto simp: register_logtype_def split: if_splits)
  then show ?thesis by simp
next
  case False
  then have "register_pending E t opsp
           (mgr\<lparr>known_logtypes_list := known_logtypes_list mgr @ [(t, opsp)]\<rparr>)
           (pending_logs_list mgr) = Inr mgr'"
    using register_logtype_new [of t mgr ok E opsp lock rv mgr'] assms by simp
  from register_pending_lists [OF this] show ?thesis by simp
qed

lemma alloc_log_lists:
  assumes "alloc_log E mgr t = Inr (rv, r, mgr')"
  shows "pending_logs_list mgr' = pending_logs_list mgr \<and>
         ((free_logs_list mgr' = free_logs_list mgr \<and>
           active_logs_list mgr' = active_logs_list mgr) \<or>
          (\<exists>d\<in>set (free_logs_list mgr).
             free_logs_list mgr' = removeAll d (free_logs_list mgr) \<and>
             active_logs_list mgr' = active_logs_list mgr @ [d]))"
proof (cases "rv = M_R_SUCCESS")
  case True
  then show ?thesis
    using alloc_log_success [of E mgr t r mgr'] assms by auto
next
  case False
  show ?thesis
  proof (cases "find (\<lambda>d. type_tag E (log_dscs mgr d) = type_word t) (free_logs_list mgr)")
    case (Some d)
    then show ?thesis
      using assms False alloc_log_tagged [OF Some] activate_result by fastforce
  next
    case None
    show ?thesis
    proof (cases "find (\<lambda>d. type_tag E (log_dscs mgr d) = LF_TYPE_FREE E) (free_logs_list mgr)")
      case None2: None
      then show ?thesis
        using assms None by (simp add: alloc_log_def scan_free_find)
    next
      case (Some d)
      obtain m1 where m1: "bind_logtype E t mgr d (known_logtypes_list mgr) = Inr m1"
        using assms alloc_log_untyped [OF None Some]
        by (cases "bind_logtype E t mgr d (known_logtypes_list mgr)") simp_all
      have "mgr' = m1"
        using assms alloc_log_untyped [OF None Some] m1 False activate_result
        by (fastforce split: if_splits)
      moreover have "free_logs_list m1 = free_logs_list mgr \<and>
            active_logs_list m1 = active_logs_list mgr \<and>
            pending_logs_list m1 = pending_logs_list mgr"
        using bind_logtype_effect [OF m1] by auto
      ultimately show ?thesis by simp
    qed
  qed
qed

lemma partition_alloc:
  assumes "partition_inv mgr []" and "alloc_log E mgr t = Inr (rv, r, mgr')"
  shows "partition_inv mgr' []"
proof -
  from alloc_log_lists [OF assms(2)]
  have p: "pending_logs_list mgr' = pending_logs_list mgr"
    and c: "(free_logs_list mgr' = free_logs_list mgr \<and>
             active_logs_list mgr' = active_logs_list mgr) \<or>
            (\<exists>d\<in>set (free_logs_list mgr).
               free_logs_list mgr' = removeAll d (free_logs_list mgr) \<and>
               active_logs_list mgr' = active_logs_list mgr @ [d])"
    by simp_all
  from c show ?thesis
  proof
    assume "free_logs_list mgr' = free_logs_list mgr \<and>
             active_logs_list mgr' = active_logs_list mgr"
    then show ?thesis using assms(1) p by (simp add: partition_inv_def)
  next
    assume "\<exists>d\<in>set (free_logs_list mgr).
               free_logs_list mgr' = removeAll d (free_logs_list mgr) \<and>
               active_logs_list mgr' = active_logs_list mgr @ [d]"
    then obtain d where d: "d \<in> set (free_logs_list mgr)"
        "free_logs_list mgr' = removeAll d (free_logs_list mgr)"
        "active_logs_list mgr' = active_logs_list mgr @ [d]"
      by blast
    have dist: "distinct (free_logs_list mgr @ active_logs_list mgr @ pending_logs_list mgr)"
      and full: "set (free_logs_list mgr @ active_logs_list mgr @ pending_logs_list mgr) =
                 {0..<LOG_NUM}"
      using assms(1) by (simp_all add: partition_inv_def)
    have "distinct (removeAll d (free_logs_list mgr) @ (active_logs_list mgr @ [d]) @
                    pending_logs_list mgr)"
      using dist d(1) by (auto simp: distinct_removeAll)
    moreover
    have "set (removeAll d (free_logs_list mgr) @ (active_logs_list mgr @ [d]) @
               pending_logs_list mgr) = {0..<LOG_NUM}"
      using full d(1) by auto
    ultimately show ?thesis
      using d p by (simp add: partition_inv_def)
  qed
qed

lemma partition_move:
  assumes inv: "partition_inv mgr []" and rl: "distinct rl"
    and sub: "set rl \<subseteq> set (pending_logs_list mgr)"
    and lists: "free_logs_list m = free_logs_list mgr" "active_logs_list m = active_logs_list mgr"
      "pending_logs_list m = filter (\<lambda>x. x \<notin> set rl) (pending_logs_list mgr)"
  shows "partition_inv m rl"
    and "partition_inv (m\<lparr>free_logs_list := rl @ free_logs_list m\<rparr>) []"
proof -
  have dist: "distinct (free_logs_list mgr @ active_logs_list mgr @ pending_logs_list mgr)"
    and full: "set (free_logs_list mgr @ active_logs_list mgr @ pending_logs_list mgr) =
                 {0..<LOG_NUM}"
    using inv by (simp_all add: partition_inv_def)
  have d1: "distinct (free_logs_list mgr @ active_logs_list mgr @
                  filter (\<lambda>x. x \<notin> set rl) (pending_logs_list mgr) @ rl)"
    using dist rl sub by auto
  have s1: "set (free_logs_list mgr @ active_logs_list mgr @
                  filter (\<lambda>x. x \<notin> set rl) (pending_logs_list mgr) @ rl) = {0..<LOG_NUM}"
    using full sub by auto
  show "partition_inv m rl"
    using d1 s1 lists by (simp add: partition_inv_def)
  have d2: "distinct ((rl @ free_logs_list mgr) @ active_logs_list mgr @
                  filter (\<lambda>x. x \<notin> set rl) (pending_logs_list mgr))"
    using dist rl sub by auto
  have s2: "set ((rl @ free_logs_list mgr) @ active_logs_list mgr @
                  filter (\<lambda>x. x \<notin> set rl) (pending_logs_list mgr)) = {0..<LOG_NUM}"
    using full sub by auto
  show "partition_inv (m\<lparr>free_logs_list := rl @ free_logs_list m\<rparr>) []"
    using d2 s2 lists by (simp add: partition_inv_def)
qed

lemma collect_foldl_distinct:
  "distinct ds \<Longrightarrow> distinct (snd c) \<Longrightarrow> set ds \<inter> set (snd c) = {} \<Longrightarrow>
     distinct (snd (foldl (collect_dsc E) c ds))"
proof (induction ds arbitrary: c)
  case Nil
  then show ?case by simp
next
  case (Cons x ds)
  have "distinct (snd (collect_dsc E c x)) \<and> set ds \<inter> set (snd (collect_dsc E c x)) = {}"
    using collect_dsc_snd [of E c x] Cons.prems by auto
  then show ?case
    using Cons.IH [of "collect_dsc E c x"] Cons.prems(1) by simp
qed

lemma recovery_inv_collected:
  "recovery_inv E mgr (collected E mgr k)"
  unfolding collected_def
proof (rule foldl_invariant)
  show "recovery_inv E mgr (mgr, [])" by (rule recovery_inv_start)
next
  fix c x
  assume "recovery_inv E mgr c" "x \<in> set (take k (pending_logs_list mgr))"
  then show "recovery_inv E mgr (collect_dsc E c x)"
    using recovery_inv_collect_dsc [of E mgr c x] in_set_takeD by fastforce
qed

lemma collected_all: "collected E mgr (length (pending_logs_list mgr)) = recovery_collect E mgr"
  by (simp add: collected_def recovery_collect_def)

lemma collected_distinct:
  "distinct (pending_logs_list mgr) \<Longrightarrow> distinct (snd (collected E mgr k))"
  unfolding collected_def by (rule collect_foldl_distinct) simp_all

lemma recovery_inv_ordering:
  "ordering E mgr m \<Longrightarrow> recovery_inv E mgr (m, snd (recovery_collect E mgr))"
proof (induction rule: ordering.induct)
  case ordering_start
  show ?case using recovery_inv_collect [of E mgr] by simp
next
  case (ordering_step m d m1)
  then show ?case
    using recovery_inv_recover_one recovery_next_in_set by blast
qed

lemma partition_recovery_inv:
  assumes "partition_inv mgr []" and "recovery_inv E mgr (m, rl)" and "distinct rl"
  shows "partition_inv m rl"
proof (rule partition_move(1) [OF assms(1,3)])
  show "set rl \<subseteq> set (pending_logs_list mgr)"
    using assms(2) by (auto simp: recovery_inv_def)
  show "free_logs_list m = free_logs_list mgr" "active_logs_list m = active_logs_list mgr"
    "pending_logs_list m = filter (\<lambda>x. x \<notin> set rl) (pending_logs_list mgr)"
    using assms(2) by (simp_all add: recovery_inv_def)
qed

lemma partition_distinct_pending: "partition_inv mgr [] \<Longrightarrow> distinct (pending_logs_list mgr)"
  by (simp add: partition_inv_def)

lemma partition_do_recovery:
  assumes inv: "partition_inv mgr []" and run: "do_recovery E mgr = Some (Inr (rv, mgr'))"
  shows "partition_inv mgr' []"
proof -
  let ?rl = "snd (recovery_collect E mgr)"
  let ?m1 = "fst (recovery_collect E mgr)"
  obtain m2 where m2: "recovery_loop E ?rl ?m1 = Some (Inr m2)"
      "mgr' = m2\<lparr>free_logs_list := ?rl @ free_logs_list m2\<rparr>"
    using do_recovery_Inr [OF run] by blast
  have "recovery_inv E mgr (?m1, ?rl)"
    using recovery_inv_collect [of E mgr] by simp
  then have ri: "recovery_inv E mgr (m2, ?rl)"
    using recovery_loop_inv [OF m2(1)] by simp
  have dist: "distinct ?rl"
    using collected_distinct [OF partition_distinct_pending [OF inv], of E "length (pending_logs_list mgr)"]
    by (simp add: collected_all)
  show ?thesis
    unfolding m2(2)
  proof (rule partition_move(2) [OF inv dist])
    show "set ?rl \<subseteq> set (pending_logs_list mgr)"
      using ri by (auto simp: recovery_inv_def)
    show "free_logs_list m2 = free_logs_list mgr" "active_logs_list m2 = active_logs_list mgr"
      "pending_logs_list m2 = filter (\<lambda>x. x \<notin> set ?rl) (pending_logs_list mgr)"
      using ri by (simp_all add: recovery_inv_def)
  qed
qed

lemma reachable_partition: "reachable E mgr \<Longrightarrow> partition_inv mgr []"
proof (induction rule: reachable.induct)
  case (reach_pool nvmd mgr)
  then show ?case by (rule create_log_pool_partition)
next
  case (reach_register mgr t opsp lock malloc_ok rv mgr')
  then show ?case
    using register_logtype_lists [of E mgr t opsp lock malloc_ok rv mgr']
    by (simp add: partition_inv_def)
next
  case (reach_recovery mgr rv mgr')
  then show ?case using partition_do_recovery by blast
next
  case (reach_alloc mgr t rv r mgr')
  then show ?case using partition_alloc by blast
qed

text \<open>
  C2. In every manager reachable from pool bring-up by registration, recovery and
  allocation, each of the \<^verbatim>\<open>LOG_NUM\<close> slots is on exactly one of the free, active and
  pending lists; and inside a run of \<^verbatim>\<open>do_recovery\<close> on such a manager, after any
  number of iterations of the collection loop and after every iteration of the ordering
  loop, each slot is on exactly one of the free, active, pending and recovery lists. A
  move of a descriptor from one list to another (\<^verbatim>\<open>list_del_init\<close> followed by
  \<^verbatim>\<open>list_add\<close>) counts as one step.
\<close>

theorem slots_partitioned:
  assumes "reachable E mgr"
  shows "partition_inv mgr [] \<and>
         (\<forall>k. partition_inv (fst (collected E mgr k)) (snd (collected E mgr k))) \<and>
         (\<forall>m. ordering E mgr m \<longrightarrow> partition_inv m (snd (recovery_collect E mgr)))"
proof -
  have inv: "partition_inv mgr []"
    using assms by (rule reachable_partition)
  have dp: "distinct (pending_logs_list mgr)"
    using inv by (rule partition_distinct_pending)
  have "partition_inv (fst (collected E mgr k)) (snd (collected E mgr k))" for k
    using partition_recovery_inv [OF inv, of E "fst (collected E mgr k)" "snd (collected E mgr k)"]
      recovery_inv_collected [of E mgr k] collected_distinct [OF dp, of E k]
    by simp
  moreover
  have "partition_inv m (snd (recovery_collect E mgr))" if "ordering E mgr m" for m
  proof (rule partition_recovery_inv [OF inv recovery_inv_ordering [OF that]])
    show "distinct (snd (recovery_collect E mgr))"
      using collected_distinct [OF dp, of E "length (pending_logs_list mgr)"]
      by (simp add: collected_all)
  qed
  ultimately show ?thesis
    using inv by blast
qed

lemma ex_pool_run:
  "create_log_pool ex_env (\<lambda>i. if i = 3 then 10 else 0) True INIT_LIST_HEADS = Inr ex_pool"
  by (simp add: ex_pool_def create_log_pool_def)

lemma ex_pool_lists:
  "pending_logs_list ex_pool = [3] \<and> active_logs_list ex_pool = [] \<and>
   free_logs_list ex_pool =
     [0, 1, 2, 4, 5, 6, 7, 8, 9, 10, 11, 12, 13, 14, 15, 16, 17, 18, 19, 20, 21, 22, 23, 24,
      25, 26, 27, 28, 29, 30, 31]"
  using create_dsc_foldl [of ex_env "\<lambda>i. if i = 3 then 10 else 0" INIT_LIST_HEADS LOG_NUM]
  by (simp add: ex_pool_def create_log_pool_def INIT_LIST_HEADS_def LOG_NUM_def ex_env_def
        upt_rec)

theorem slots_partitioned_witness:
  "reachable ex_env ex_pool \<and>
   pending_logs_list ex_pool = [3] \<and>
   partition_inv ex_pool [] \<and>
   partition_inv (fst (collected ex_env ex_pool 1)) (snd (collected ex_env ex_pool 1)) \<and>
   ordering ex_env ex_pool (fst (recovery_collect ex_env ex_pool)) \<and>
   partition_inv (fst (recovery_collect ex_env ex_pool)) (snd (recovery_collect ex_env ex_pool))"
proof -
  have r: "reachable ex_env ex_pool"
    using ex_pool_run by (rule reach_pool)
  have o: "ordering ex_env ex_pool (fst (recovery_collect ex_env ex_pool))"
    by (rule ordering_start)
  show ?thesis
    using slots_partitioned [OF r] r o ex_pool_lists by blast
qed

lemma register_static_loop_reachable:
  "reachable E mgr \<Longrightarrow> register_static_loop E oks mgr is = Inr mgr' \<Longrightarrow> reachable E mgr'"
proof (induction "is" arbitrary: mgr)
  case Nil
  then show ?case by simp
next
  case (Cons i "is")
  obtain rv m1 where r: "register_logtype E mgr (of_nat i) (Some (static_log_ops i)) False (oks i)
                           = Inr (rv, m1)"
      "register_static_loop E oks m1 is = Inr mgr'"
    using Cons.prems(2)
    by (cases "register_logtype E mgr (of_nat i) (Some (static_log_ops i)) False (oks i)")
       (auto split: if_splits)
  have "reachable E m1"
    using Cons.prems(1) r(1) by (rule reach_register)
  then show ?case
    using Cons.IH r(2) by blast
qed

text \<open>The manager that \<^verbatim>\<open>logmgr_init\<close> publishes is reachable.\<close>

lemma logmgr_init_reachable:
  assumes "logmgr_init E W P = Some (Inr (rv, P'))" and "\<not> logmgr_initialized P"
    and "malloc_mgr_ok W"
  shows "\<exists>mgr. logmgr P' = Some mgr \<and> reachable E mgr"
proof -
  obtain m1 where m1: "create_log_pool E (pool_flags W) (calloc_dscs_ok W) INIT_LIST_HEADS = Inr m1"
    using assms
    by (cases "create_log_pool E (pool_flags W) (calloc_dscs_ok W) INIT_LIST_HEADS")
       (simp_all add: logmgr_init_def)
  then have ok: "calloc_dscs_ok W"
    by (simp add: create_log_pool_def split: if_splits)
  have r1: "reachable E m1"
    using m1 ok reach_pool [of E "pool_flags W" m1] by simp
  obtain r2 where r2: "register_static_logtypes E (malloc_entry_ok W) m1 = Inr r2"
    using assms m1
    by (cases "register_static_logtypes E (malloc_entry_ok W) m1")
       (simp_all add: logmgr_init_def)
  then have "register_static_loop E (malloc_entry_ok W) m1 [1..<LF_TYPE_VALIDVALUES E] =
               Inr (snd r2)"
    by (auto simp: register_static_logtypes_def split: sum.splits)
  then have r2r: "reachable E (snd r2)"
    using register_static_loop_reachable [OF r1] by blast
  obtain r3 where r3: "do_recovery E (snd r2) = Some (Inr r3)" "logmgr P' = Some (snd r3)"
    using assms m1 r2
    by (auto simp: logmgr_init_def split: option.splits sum.splits)
  have "reachable E (snd r3)"
    using r2r r3(1) reach_recovery [of E "snd r2" "fst r3" "snd r3"] by simp
  then show ?thesis
    using r3(2) by blast
qed


subsection \<open>First use of the manager\<close>

text \<open>
  Of the three entry points only registration brings the manager up: when it returns,
  the manager exists.
\<close>

lemma register_first_use:
  assumes "logmgr P = None"
    and "m_logmgr_register_logtype E W P t opsp malloc_ok = Some (Inr (rv, P'))"
  shows "logmgr P' \<noteq> None"
  using assms
  by (auto simp: m_logmgr_register_logtype_def split: option.splits sum.splits)

text \<open>
  When the \<^verbatim>\<open>malloc\<close> of the manager fails, \<^verbatim>\<open>logmgr\<close> stays null and registration
  goes on to lock the mutex of a manager that is not there.
\<close>

lemma register_first_use_nomem:
  assumes "logmgr P = None" and "\<not> logmgr_initialized P" and "\<not> malloc_mgr_ok W"
  shows "m_logmgr_register_logtype E W P t opsp malloc_ok = Some (Inl NullDeref)"
  using assms
  by (simp add: m_logmgr_register_logtype_def logmgr_init_def)

text \<open>
  C9. The claim: each of the three client operations, called as the first operation of
  the process, creates the manager before it works on it. Recovery and allocation do not:
  with \<^verbatim>\<open>logmgr\<close> still null, \<^verbatim>\<open>m_logmgr_do_recovery\<close> hands the null pointer to
  \<^verbatim>\<open>do_recovery\<close> and \<^verbatim>\<open>m_logmgr_alloc_log\<close> reads the free list through it.
\<close>

theorem first_use_null_manager:
  "m_logmgr_do_recovery E \<lparr>logmgr = None, logmgr_initialized = False\<rparr> = Some (Inl NullDeref) \<and>
   m_logmgr_alloc_log E \<lparr>logmgr = None, logmgr_initialized = False\<rparr> t = Inl NullDeref"
  by (simp add: m_logmgr_do_recovery_def m_logmgr_alloc_log_def)

subsection \<open>Allocation of an unknown type\<close>

text \<open>
  The test \<^verbatim>\<open>!log_dsc->ops\<close> by which \<^verbatim>\<open>m_logmgr_alloc_log\<close> recognises an unknown
  type relies on the untyped free descriptor having no operations. That holds in every
  reachable manager when the \<^verbatim>\<open>alloc\<close> and recovery callbacks leave the flags alone.
\<close>

lemma create_dsc_foldl_dscs:
  "i < n \<Longrightarrow>
     log_dscs (foldl (create_dsc E nvmd) mgr [0..<n]) i =
       \<lparr>generic_flags = nvmd i, log = None, ops = None, logorder = INV_LOG_ORDER E\<rparr>"
  by (induction n) (auto simp: create_dsc_def less_Suc_eq)

lemma create_log_pool_unbound:
  assumes "create_log_pool E nvmd ok INIT_LIST_HEADS = Inr mgr"
  shows "untyped_unbound E mgr"
proof -
  have mgr: "mgr = foldl (create_dsc E nvmd) INIT_LIST_HEADS [0..<LOG_NUM]"
    using assms by (simp add: create_log_pool_def split: if_splits)
  have fr: "free_logs_list mgr =
          filter (\<lambda>i. nvmd i AND LF_TYPE_MASK E = LF_TYPE_FREE E) [0..<LOG_NUM]"
    and pe: "pending_logs_list mgr =
          filter (\<lambda>i. nvmd i AND LF_TYPE_MASK E \<noteq> LF_TYPE_FREE E) [0..<LOG_NUM]"
    unfolding mgr using create_dsc_foldl [of E nvmd INIT_LIST_HEADS LOG_NUM]
    by (simp_all add: INIT_LIST_HEADS_def)
  have dsc: "log_dscs mgr i =
       \<lparr>generic_flags = nvmd i, log = None, ops = None, logorder = INV_LOG_ORDER E\<rparr>"
    if "i < LOG_NUM" for i
    unfolding mgr using that by (rule create_dsc_foldl_dscs)
  show ?thesis
    unfolding untyped_unbound_def fr pe
    by (auto simp: dsc type_tag_def)
qed

lemma alloc_log_frame:
  assumes "alloc_log E mgr t = Inr (rv, r, mgr')"
  shows "mgr' = mgr \<or>
         (\<exists>d\<in>set (free_logs_list mgr).
            (\<forall>x. x \<noteq> d \<longrightarrow> log_dscs mgr' x = log_dscs mgr x) \<and>
            (d \<in> set (free_logs_list mgr') \<longrightarrow> ops (log_dscs mgr' d) = None))"
proof (cases "find (\<lambda>d. type_tag E (log_dscs mgr d) = type_word t) (free_logs_list mgr)")
  case (Some d)
  have act: "activate E mgr d t = Inr (rv, r, mgr')"
    using assms alloc_log_tagged [OF Some] by simp
  from activate_summary [OF act]
  have "free_logs_list mgr' = removeAll d (free_logs_list mgr)"
    and "\<forall>x. x \<noteq> d \<longrightarrow> log_dscs mgr' x = log_dscs mgr x"
    by auto
  then have "(\<forall>x. x \<noteq> d \<longrightarrow> log_dscs mgr' x = log_dscs mgr x) \<and>
            (d \<in> set (free_logs_list mgr') \<longrightarrow> ops (log_dscs mgr' d) = None)"
    by simp
  then show ?thesis
    using find_Some_set [OF Some] by blast
next
  case None
  show ?thesis
  proof (cases "find (\<lambda>d. type_tag E (log_dscs mgr d) = LF_TYPE_FREE E) (free_logs_list mgr)")
    case None2: None
    then show ?thesis
      using assms None by (simp add: alloc_log_def scan_free_find)
  next
    case (Some d)
    obtain m1 where m1: "bind_logtype E t mgr d (known_logtypes_list mgr) = Inr m1"
      using assms alloc_log_untyped [OF None Some]
      by (cases "bind_logtype E t mgr d (known_logtypes_list mgr)") simp_all
    have fr1: "\<forall>x. x \<noteq> d \<longrightarrow> log_dscs m1 x = log_dscs mgr x"
      and l1: "free_logs_list m1 = free_logs_list mgr"
      using bind_logtype_effect [OF m1] by auto
    have "(\<forall>x. x \<noteq> d \<longrightarrow> log_dscs mgr' x = log_dscs mgr x) \<and>
            (d \<in> set (free_logs_list mgr') \<longrightarrow> ops (log_dscs mgr' d) = None)"
    proof (cases "ops (log_dscs m1 d) = None")
      case True
      then have "mgr' = m1"
        using assms alloc_log_untyped [OF None Some] m1 by simp
      then show ?thesis using fr1 True by simp
    next
      case False
      then have act: "activate E m1 d t = Inr (rv, r, mgr')"
        using assms alloc_log_untyped [OF None Some] m1 by (auto split: if_splits)
      from activate_summary [OF act]
      have "free_logs_list mgr' = removeAll d (free_logs_list m1)"
        and "\<forall>x. x \<noteq> d \<longrightarrow> log_dscs mgr' x = log_dscs m1 x"
        by auto
      then show ?thesis using fr1 by simp
    qed
    then show ?thesis
      using find_Some_set [OF Some] by blast
  qed
qed

lemma reachable_untyped_unbound:
  assumes "reachable E mgr" and keep: "callbacks_keep_flags E"
  shows "untyped_unbound E mgr"
  using assms(1)
proof (induction rule: reachable.induct)
  case (reach_pool nvmd mgr)
  then show ?case by (rule create_log_pool_unbound)
next
  case (reach_register mgr t opsp lock malloc_ok rv mgr')
  have part: "partition_inv mgr []"
    using reach_register.hyps(1) by (rule reachable_partition)
  have lists: "free_logs_list mgr' = free_logs_list mgr"
      "pending_logs_list mgr' = pending_logs_list mgr"
    using register_logtype_lists [OF reach_register.hyps(2)] by simp_all
  show ?case
  proof (cases "logtype_known t (known_logtypes_list mgr) \<or> \<not> malloc_ok")
    case True
    then have "mgr' = mgr"
      using reach_register.hyps(2) by (auto simp: register_logtype_def split: if_splits)
    then show ?thesis using reach_register.IH by simp
  next
    case False
    let ?m0 = "mgr\<lparr>known_logtypes_list := known_logtypes_list mgr @ [(t, opsp)]\<rparr>"
    have rp: "register_pending E t opsp ?m0 (pending_logs_list mgr) = Inr mgr'"
      using register_logtype_new [of t mgr malloc_ok E opsp lock rv mgr']
        reach_register.hyps(2) False by simp
    have dist: "distinct (pending_logs_list mgr)"
      using part by (rule partition_distinct_pending)
    have fr: "log_dscs mgr' d = log_dscs mgr d" if "d \<in> set (free_logs_list mgr)" for d
    proof -
      have "d \<notin> set (pending_logs_list mgr)"
        using part that by (auto simp: partition_inv_def)
      then show ?thesis using register_pending_others [OF rp] by simp
    qed
    have pe: "generic_flags (log_dscs mgr' d) = generic_flags (log_dscs mgr d)"
      if "d \<in> set (pending_logs_list mgr)" for d
    proof (cases "type_tag E (log_dscs mgr d) = type_word t")
      case True
      then have "type_tag E (log_dscs ?m0 d) = type_word t" by simp
      from register_pending_hit [OF rp dist that this]
      obtain p f where pf: "alloc (deref E p) = Some f"
          "log_dscs mgr' d = snd (f ((log_dscs ?m0 d)\<lparr>ops := opsp\<rparr>))"
        by blast
      have "keeps_flags (alloc (deref E p))"
        using keep by (simp add: callbacks_keep_flags_def)
      then show ?thesis
        using pf by (simp add: keeps_flags_def)
    next
      case False
      then have "type_tag E (log_dscs ?m0 d) \<noteq> type_word t" by simp
      from register_pending_miss [OF rp dist this] show ?thesis by simp
    qed
    show ?thesis
      using reach_register.IH lists fr pe
      by (auto simp: untyped_unbound_def type_tag_def)
  qed
next
  case (reach_recovery mgr rv mgr')
  have part: "partition_inv mgr []"
    using reach_recovery.hyps(1) by (rule reachable_partition)
  have rk: "recovery_keeps_flags E"
    using keep by (simp add: callbacks_keep_flags_def)
  note run = reach_recovery.hyps(2)
  have flags: "generic_flags (log_dscs mgr' x) = generic_flags (log_dscs mgr x)" for x
    using do_recovery_flags [OF run rk] .
  have pend: "set (pending_logs_list mgr') \<subseteq> set (pending_logs_list mgr)"
    using do_recovery_effect(5) [OF run] by auto
  have free: "ops (log_dscs mgr' d) = None"
    if d: "d \<in> set (free_logs_list mgr')" "type_tag E (log_dscs mgr' d) = LF_TYPE_FREE E" for d
  proof (cases "d \<in> set (pending_logs_list mgr)")
    case True
    then have "type_tag E (log_dscs mgr d) \<noteq> LF_TYPE_FREE E"
      using reach_recovery.IH by (simp add: untyped_unbound_def)
    then show ?thesis using d(2) flags by (simp add: type_tag_def)
  next
    case False
    then have same: "log_dscs mgr' d = log_dscs mgr d"
      using do_recovery_effect(6) [OF run] by blast
    have "d \<in> set (free_logs_list mgr)"
      using d(1) False do_recovery_effect(4) [OF run] by (auto simp: recovery_collect_set)
    then show ?thesis
      using reach_recovery.IH d(2) same by (simp add: untyped_unbound_def)
  qed
  have "type_tag E (log_dscs mgr' d) \<noteq> LF_TYPE_FREE E"
    if "d \<in> set (pending_logs_list mgr')" for d
    using that pend reach_recovery.IH flags [of d]
    by (auto simp: untyped_unbound_def type_tag_def)
  then show ?case
    using free by (simp add: untyped_unbound_def)
next
  case (reach_alloc mgr t rv r mgr')
  have part: "partition_inv mgr []"
    using reach_alloc.hyps(1) by (rule reachable_partition)
  note run = reach_alloc.hyps(2)
  from alloc_log_lists [OF run]
  have pl: "pending_logs_list mgr' = pending_logs_list mgr"
    and fl: "set (free_logs_list mgr') \<subseteq> set (free_logs_list mgr)"
    by auto
  from alloc_log_frame [OF run] show ?case
  proof
    assume "mgr' = mgr"
    then show ?thesis using reach_alloc.IH by simp
  next
    assume "\<exists>d\<in>set (free_logs_list mgr).
            (\<forall>x. x \<noteq> d \<longrightarrow> log_dscs mgr' x = log_dscs mgr x) \<and>
            (d \<in> set (free_logs_list mgr') \<longrightarrow> ops (log_dscs mgr' d) = None)"
    then obtain d where d: "d \<in> set (free_logs_list mgr)"
        "\<forall>x. x \<noteq> d \<longrightarrow> log_dscs mgr' x = log_dscs mgr x"
        "d \<in> set (free_logs_list mgr') \<longrightarrow> ops (log_dscs mgr' d) = None"
      by blast
    have dp: "d \<notin> set (pending_logs_list mgr)"
      using part d(1) by (auto simp: partition_inv_def)
    have "ops (log_dscs mgr' x) = None"
      if "x \<in> set (free_logs_list mgr')" "type_tag E (log_dscs mgr' x) = LF_TYPE_FREE E" for x
    proof (cases "x = d")
      case True
      then show ?thesis using d(3) that(1) by simp
    next
      case False
      then have "log_dscs mgr' x = log_dscs mgr x" using d(2) by simp
      then show ?thesis
        using reach_alloc.IH that fl by (auto simp: untyped_unbound_def)
    qed
    moreover
    have "type_tag E (log_dscs mgr' x) \<noteq> LF_TYPE_FREE E"
      if "x \<in> set (pending_logs_list mgr')" for x
    proof -
      have "x \<noteq> d" using that pl dp by auto
      then have "log_dscs mgr' x = log_dscs mgr x" using d(2) by simp
      then show ?thesis
        using reach_alloc.IH that pl by (simp add: untyped_unbound_def)
    qed
    ultimately show ?thesis
      by (simp add: untyped_unbound_def)
  qed
qed


text \<open>
  Where an untyped free descriptor has operations bound, the allocation of an
  unregistered type does not fail: it initialises the log through those operations.
\<close>

lemma alloc_unknown_type_stale_ops:
  "\<not> logtype_known 9 (known_logtypes_list ex_stale) \<and>
   fst (projr (m_logmgr_alloc_log ex_env
                 \<lparr>logmgr = Some ex_stale, logmgr_initialized = True\<rparr> 9)) = M_R_SUCCESS \<and>
   trace (the (logmgr (snd (snd (projr (m_logmgr_alloc_log ex_env
                 \<lparr>logmgr = Some ex_stale, logmgr_initialized = True\<rparr> 9)))))) =
     [CallInit (client_ops 2) 0, PcmStore 0 9, PcmBarrier]"
  by (simp add: m_logmgr_alloc_log_def alloc_log_def scan_free_def activate_def
        store_type_def ex_stale_def ex_defs)

text \<open>
  C4, as the claim states it, fails: the allocation of an unregistered type from an
  untyped free slot and the allocation from a pool with no free slot return the same
  result, \<^verbatim>\<open>M_R_FAILURE\<close>, and no descriptor; the caller cannot tell them apart.
\<close>

theorem unknown_type_not_distinct:
  "m_logmgr_alloc_log ex_env \<lparr>logmgr = Some ex_untyped, logmgr_initialized = True\<rparr> 9 =
     Inr (M_R_FAILURE, None, \<lparr>logmgr = Some ex_untyped, logmgr_initialized = True\<rparr>) \<and>
   m_logmgr_alloc_log ex_env \<lparr>logmgr = Some ex_nofree, logmgr_initialized = True\<rparr> 9 =
     Inr (M_R_FAILURE, None, \<lparr>logmgr = Some ex_nofree, logmgr_initialized = True\<rparr>)"
  by (simp add: m_logmgr_alloc_log_def alloc_log_def scan_free_def ex_untyped_def
        ex_nofree_def ex_defs)

text \<open>
  C4, amended. When no free descriptor carries the requested tag, some free descriptor
  is untyped, the untyped free descriptors have no operations bound, and the type is not
  registered, the call returns \<^verbatim>\<open>M_R_FAILURE\<close> and no descriptor, and the process is
  as it was: the lists, the descriptors, the metadata and the trace of callbacks and
  persistent stores.
\<close>

theorem alloc_unknown_type_unchanged:
  assumes "logmgr P = Some mgr"
    and "\<forall>d\<in>set (free_logs_list mgr). type_tag E (log_dscs mgr d) \<noteq> type_word t"
    and "\<exists>d\<in>set (free_logs_list mgr). type_tag E (log_dscs mgr d) = LF_TYPE_FREE E"
    and "\<forall>d\<in>set (free_logs_list mgr).
           type_tag E (log_dscs mgr d) = LF_TYPE_FREE E \<longrightarrow> ops (log_dscs mgr d) = None"
    and "\<not> logtype_known t (known_logtypes_list mgr)"
  shows "m_logmgr_alloc_log E P t = Inr (M_R_FAILURE, None, P)"
  using assms(1) alloc_log_unknown_type [OF assms(2-5)]
  by (simp add: m_logmgr_alloc_log_def)

theorem alloc_unknown_type_unchanged_witness:
  "free_logs_list ex_untyped = [0] \<and>
   type_tag ex_env (log_dscs ex_untyped 0) = LF_TYPE_FREE ex_env \<and>
   type_tag ex_env (log_dscs ex_untyped 0) \<noteq> type_word 9 \<and>
   ops (log_dscs ex_untyped 0) = None \<and>
   \<not> logtype_known 9 (known_logtypes_list ex_untyped) \<and>
   m_logmgr_alloc_log ex_env \<lparr>logmgr = Some ex_untyped, logmgr_initialized = True\<rparr> 9 =
     Inr (M_R_FAILURE, None, \<lparr>logmgr = Some ex_untyped, logmgr_initialized = True\<rparr>)"
proof -
  have h1: "logmgr \<lparr>logmgr = Some ex_untyped, logmgr_initialized = True\<rparr> = Some ex_untyped"
    by simp
  have h2: "\<forall>d\<in>set (free_logs_list ex_untyped).
              type_tag ex_env (log_dscs ex_untyped d) \<noteq> type_word 9"
    by (simp add: ex_untyped_def ex_defs)
  have h3: "\<exists>d\<in>set (free_logs_list ex_untyped).
              type_tag ex_env (log_dscs ex_untyped d) = LF_TYPE_FREE ex_env"
    by (simp add: ex_untyped_def ex_defs)
  have h4: "\<forall>d\<in>set (free_logs_list ex_untyped).
              type_tag ex_env (log_dscs ex_untyped d) = LF_TYPE_FREE ex_env \<longrightarrow>
              ops (log_dscs ex_untyped d) = None"
    by (simp add: ex_untyped_def ex_defs)
  have h5: "\<not> logtype_known 9 (known_logtypes_list ex_untyped)"
    by (simp add: ex_untyped_def)
  show ?thesis
    using alloc_unknown_type_unchanged [OF h1 h2 h3 h4 h5]
    by (simp add: ex_untyped_def ex_defs)
qed

subsection \<open>Reuse of recovered slots\<close>

text \<open>
  C7, as the claim states it, fails: recovery puts slot 0, tagged with type 2, on the
  free list; type 1 is registered; the allocation of type 1 that follows returns
  \<^verbatim>\<open>M_R_FAILURE\<close> and leaves the slot where it was.
\<close>

theorem recovered_slot_not_rebound:
  "do_recovery ex_env ex_pending = Some (Inr (M_R_SUCCESS, ex_recovered)) \<and>
   free_logs_list ex_recovered = [0] \<and>
   type_tag ex_env (log_dscs ex_recovered 0) = type_word 2 \<and>
   logtype_known 1 (known_logtypes_list ex_recovered) \<and>
   m_logmgr_alloc_log ex_env \<lparr>logmgr = Some ex_recovered, logmgr_initialized = True\<rparr> 1 =
     Inr (M_R_FAILURE, None, \<lparr>logmgr = Some ex_recovered, logmgr_initialized = True\<rparr>)"
  by (simp add: ex_recovered_def do_recovery_def recovery_loop.simps recover_one_def
        recovery_next_def scan_dsc_def recovery_collect_def collect_dsc_def
        m_logmgr_alloc_log_def alloc_log_def scan_free_def ex_pending_def ex_defs)

text \<open>
  C7, amended. A descriptor that \<^verbatim>\<open>m_logmgr_alloc_log\<close> returns was on the free list
  with the requested tag or with the tag \<^verbatim>\<open>LF_TYPE_FREE\<close>; and when no free descriptor
  has either tag, the call returns \<^verbatim>\<open>M_R_FAILURE\<close> and changes nothing. So a recovered
  slot is taken again only for the type its tag names.
\<close>

theorem alloc_only_same_type_or_free:
  assumes "logmgr P = Some mgr"
  shows "(m_logmgr_alloc_log E P t = Inr (rv, Some d, P') \<longrightarrow>
            d \<in> set (free_logs_list mgr) \<and>
            (type_tag E (log_dscs mgr d) = type_word t \<or>
             type_tag E (log_dscs mgr d) = LF_TYPE_FREE E)) \<and>
         ((\<forall>x\<in>set (free_logs_list mgr).
             type_tag E (log_dscs mgr x) \<noteq> type_word t \<and>
             type_tag E (log_dscs mgr x) \<noteq> LF_TYPE_FREE E) \<longrightarrow>
            m_logmgr_alloc_log E P t = Inr (M_R_FAILURE, None, P))"
proof -
  have "d \<in> set (free_logs_list mgr) \<and>
        (type_tag E (log_dscs mgr d) = type_word t \<or>
         type_tag E (log_dscs mgr d) = LF_TYPE_FREE E)"
    if "m_logmgr_alloc_log E P t = Inr (rv, Some d, P')"
  proof -
    have "alloc_log E mgr t = Inr (rv, Some d, snd (snd (projr (alloc_log E mgr t))))"
      using that assms
      by (cases "alloc_log E mgr t") (auto simp: m_logmgr_alloc_log_def)
    then show ?thesis
      by (rule alloc_log_selected)
  qed
  moreover
  have "m_logmgr_alloc_log E P t = Inr (M_R_FAILURE, None, P)"
    if "\<forall>x\<in>set (free_logs_list mgr).
          type_tag E (log_dscs mgr x) \<noteq> type_word t \<and>
          type_tag E (log_dscs mgr x) \<noteq> LF_TYPE_FREE E"
  proof -
    have "alloc_log E mgr t = Inr (M_R_FAILURE, None, mgr)"
      using that by (rule alloc_log_no_candidate)
    then show ?thesis
      using assms by (simp add: m_logmgr_alloc_log_def)
  qed
  ultimately show ?thesis
    by blast
qed

theorem alloc_only_same_type_or_free_witness:
  "free_logs_list ex_recovered = [0] \<and>
   type_tag ex_env (log_dscs ex_recovered 0) = type_word 2 \<and>
   type_tag ex_env (log_dscs ex_recovered 0) \<noteq> type_word 1 \<and>
   type_tag ex_env (log_dscs ex_recovered 0) \<noteq> LF_TYPE_FREE ex_env \<and>
   m_logmgr_alloc_log ex_env \<lparr>logmgr = Some ex_recovered, logmgr_initialized = True\<rparr> 1 =
     Inr (M_R_FAILURE, None, \<lparr>logmgr = Some ex_recovered, logmgr_initialized = True\<rparr>)"
proof -
  have h: "logmgr \<lparr>logmgr = Some ex_recovered, logmgr_initialized = True\<rparr> = Some ex_recovered"
    by simp
  obtain P' where ok:
    "m_logmgr_alloc_log ex_env \<lparr>logmgr = Some ex_recovered, logmgr_initialized = True\<rparr> 2 =
       Inr (M_R_SUCCESS, Some 0, P')"
    using ex_recovered_alloc_2 by blast
  have none: "\<forall>x\<in>set (free_logs_list ex_recovered).
      type_tag ex_env (log_dscs ex_recovered x) \<noteq> type_word 1 \<and>
      type_tag ex_env (log_dscs ex_recovered x) \<noteq> LF_TYPE_FREE ex_env"
    using ex_recovered_free by (simp add: ex_env_def type_word_def)
  show ?thesis
    using alloc_only_same_type_or_free [OF h, of ex_env 2 M_R_SUCCESS 0 P']
      alloc_only_same_type_or_free [OF h, of ex_env 1] ok none ex_recovered_free
    by (simp add: ex_env_def type_word_def)
qed

end
